theory Spec2Isabelle
  imports Main "HOL-Library.Word" "HOL-Library.AList"
begin

section \<open>The image compression plugin (plugins/vite-plugin-image-compress.ts)\<close>

text \<open>
  A shallow embedding of \<^verbatim>\<open>viteImageCompress\<close>: the option merge, the
  \<^verbatim>\<open>generateBundle\<close> hook with its per-asset task, and the status column of
  \<^verbatim>\<open>closeBundle\<close>.

  The imported libraries are not part of the repository. The codec (sharp) and the filter
  constructor (\<^verbatim>\<open>createFilter\<close> of @rollup/pluginutils) are parameters of the model;
  \<^verbatim>\<open>path.extname\<close>, \<^verbatim>\<open>String.prototype.toLowerCase\<close> and
  \<^verbatim>\<open>Buffer.from(s, 'utf-8')\<close> are written out after Node's documented behaviour.
\<close>

subsection \<open>JavaScript data\<close>

text \<open>A Buffer or Uint8Array is its list of bytes; \<^verbatim>\<open>byteLength\<close> and
  \<^verbatim>\<open>length\<close> are the length of that list.\<close>

type_synonym Buffer = "8 word list"

text \<open>An asset's string content is a sequence of UTF-16 code units.\<close>

type_synonym js_string = "16 word list"

text \<open>
  A property of an options object. Object spread copies every own property of its
  argument, also one whose value is \<^verbatim>\<open>undefined\<close>, so a key that is missing and a
  key that holds \<^verbatim>\<open>undefined\<close> are told apart.
\<close>

datatype 'a property = Absent | Undefined | Value 'a

text \<open>\<^verbatim>\<open>{...d, ...u}\<close> at one key: the property of \<^verbatim>\<open>u\<close> wins when
  \<^verbatim>\<open>u\<close> has the key.\<close>

fun spread :: "'a property \<Rightarrow> 'a property \<Rightarrow> 'a property" where
  "spread d Absent = d"
| "spread d Undefined = Undefined"
| "spread d (Value v) = Value v"

text \<open>Reading \<^verbatim>\<open>obj.key\<close>: a missing key reads as \<^verbatim>\<open>undefined\<close>.\<close>

fun read :: "'a property \<Rightarrow> 'a option" where
  "read Absent = None"
| "read Undefined = None"
| "read (Value v) = Some v"

subsection \<open>Options\<close>

text \<open>The option records handed to sharp are opaque key/value objects; the plugin only
  counts their keys.\<close>

datatype opt_value = Num int | Flag bool | Word string

type_synonym FormatOptions = "(string \<times> opt_value) list"

record SharpCompressOptions =
  jpeg :: "FormatOptions property"
  png :: "FormatOptions property"
  webp :: "FormatOptions property"
  gif :: "FormatOptions property"
  avif :: "FormatOptions property"

text \<open>A \<^verbatim>\<open>FilterPattern\<close> is used through one capability only: does a path match.\<close>

type_synonym FilterPattern = "string \<Rightarrow> bool"

record ImageCompressOptions =
  include_pattern :: "FilterPattern property"
  exclude_pattern :: "FilterPattern property"
  sharpOptions :: "SharpCompressOptions property"
  log :: "bool property"

text \<open>The empty object \<^verbatim>\<open>{}\<close>, also the value of \<^verbatim>\<open>userOptions\<close> when the
  plugin is called without an argument.\<close>

definition no_sharp_options :: SharpCompressOptions where
  "no_sharp_options =
     \<lparr>jpeg = Absent, png = Absent, webp = Absent, gif = Absent, avif = Absent\<rparr>"

definition no_options :: ImageCompressOptions where
  "no_options =
     \<lparr>include_pattern = Absent, exclude_pattern = Absent, sharpOptions = Absent, log = Absent\<rparr>"

subsection \<open>Strings and paths\<close>

text \<open>File names are modelled as strings of 8-bit characters (Latin-1).
  \<^verbatim>\<open>toLowerCase\<close> maps A-Z and the upper-case letters of Latin-1 to their lower-case
  forms and leaves every other character alone.\<close>

definition lower_char :: "char \<Rightarrow> char" where
  "lower_char c =
     (let n = (of_char c :: nat) in
      if (65 \<le> n \<and> n \<le> 90) \<or> (192 \<le> n \<and> n \<le> 222 \<and> n \<noteq> 215)
      then char_of (n + 32) else c)"

definition toLowerCase :: "string \<Rightarrow> string" where
  "toLowerCase s = map lower_char s"

definition endsWith :: "string \<Rightarrow> string \<Rightarrow> bool" where
  "endsWith s e = (length e \<le> length s \<and> drop (length s - length e) s = e)"

text \<open>
  \<^verbatim>\<open>path.extname\<close> (POSIX): trailing slashes are ignored, the last path component is
  taken, and the extension runs from its last dot to its end. The result is empty when the
  component has no dot, when its only dot is its first character, and when it is
  \<^verbatim>\<open>..\<close>.
\<close>

definition last_component :: "string \<Rightarrow> string" where
  "last_component p =
     rev (takeWhile (\<lambda>c. c \<noteq> CHR ''/'') (dropWhile (\<lambda>c. c = CHR ''/'') (rev p)))"

definition extname :: "string \<Rightarrow> string" where
  "extname p =
     (let base = last_component p;
          tail = rev (takeWhile (\<lambda>c. c \<noteq> CHR ''.'') (rev base));
          stem = take (length base - Suc (length tail)) base
      in if CHR ''.'' \<notin> set base \<or> stem = [] \<or> base = ''..'' then []
         else CHR ''.'' # tail)"

text \<open>The default include pattern \<^verbatim>\<open>/\.(png|jpe?g|gif|svg|webp|avif)$/i\<close>.\<close>

definition default_include :: FilterPattern where
  "default_include p =
     list_ex (endsWith (toLowerCase p))
       [''.png'', ''.jpg'', ''.jpeg'', ''.gif'', ''.svg'', ''.webp'', ''.avif'']"

text \<open>
  \<^verbatim>\<open>Buffer.from(s, 'utf-8')\<close>: a surrogate pair is one code point of four bytes, a
  surrogate on its own is encoded as U+FFFD, every other code unit is a code point of one
  to three bytes.
\<close>

definition is_high_surrogate :: "16 word \<Rightarrow> bool" where
  "is_high_surrogate u = (0xD800 \<le> unat u \<and> unat u \<le> 0xDBFF)"

definition is_low_surrogate :: "16 word \<Rightarrow> bool" where
  "is_low_surrogate u = (0xDC00 \<le> unat u \<and> unat u \<le> 0xDFFF)"

definition lone_unit :: "16 word \<Rightarrow> nat" where
  "lone_unit u = (if is_high_surrogate u \<or> is_low_surrogate u then 0xFFFD else unat u)"

fun code_points :: "js_string \<Rightarrow> nat list" where
  "code_points [] = []"
| "code_points [u] = [lone_unit u]"
| "code_points (u # v # rest) =
     (if is_high_surrogate u \<and> is_low_surrogate v
      then (0x10000 + (unat u - 0xD800) * 1024 + (unat v - 0xDC00)) # code_points rest
      else lone_unit u # code_points (v # rest))"

definition utf8_bytes :: "nat \<Rightarrow> Buffer" where
  "utf8_bytes cp =
     (if cp < 0x80 then [of_nat cp]
      else if cp < 0x800 then [of_nat (0xC0 + cp div 64), of_nat (0x80 + cp mod 64)]
      else if cp < 0x10000 then
        [of_nat (0xE0 + cp div 4096), of_nat (0x80 + (cp div 64) mod 64),
         of_nat (0x80 + cp mod 64)]
      else
        [of_nat (0xF0 + cp div 262144), of_nat (0x80 + (cp div 4096) mod 64),
         of_nat (0x80 + (cp div 64) mod 64), of_nat (0x80 + cp mod 64)])"

definition Buffer_from_utf8 :: "js_string \<Rightarrow> Buffer" where
  "Buffer_from_utf8 s = concat (map utf8_bytes (code_points s))"

subsection \<open>The bundle, the ledger and the trace\<close>

datatype entry_type = asset | chunk

text \<open>The \<^verbatim>\<open>source\<close> of a bundle entry as the hook tests it: a string, a
  \<^verbatim>\<open>Uint8Array\<close>, or anything else (a chunk has no \<^verbatim>\<open>source\<close> at all).\<close>

datatype source = Text js_string | Bytes Buffer | Neither

record OutputEntry =
  type :: entry_type
  source :: source

text \<open>\<^verbatim>\<open>Object.entries(bundle)\<close>: the entries in order; an object has no two equal
  keys.\<close>

type_synonym Bundle = "(string \<times> OutputEntry) list"

record sizes =
  originalSize :: nat
  compressedSize :: nat

text \<open>\<^verbatim>\<open>processedFiles\<close> is a JavaScript \<^verbatim>\<open>Map\<close>: \<^verbatim>\<open>set\<close> overwrites the
  value of a key that is present and appends a new key at the end, which is
  \<^const>\<open>AList.update\<close>.\<close>

type_synonym Ledger = "(string \<times> sizes) list"

datatype format = Jpeg | Png | Webp | Gif | Avif

text \<open>What leaves the plugin: the calls to the logger, with the file they are about, and
  the calls to sharp (the constructor, and a format method followed by
  \<^verbatim>\<open>toBuffer\<close>).\<close>

datatype effect =
    WarnUnknownSource string
  | InfoSkipSvg string
  | WarnStringSource string
  | InfoUnsupported string
  | InfoNotSmaller string nat nat
  | InfoNoChange string nat
  | ErrorFailed string string
  | SharpNew string
  | Encode format string FormatOptions

record State =
  processedFiles :: Ledger
  effects :: "effect list"

text \<open>
  The sharp library. \<^verbatim>\<open>sharp(buffer)\<close> returns an instance or throws;
  \<^verbatim>\<open>instance.jpeg(options).toBuffer()\<close> (and the same for the other formats) yields
  the encoded bytes or fails. A failure carries the \<^verbatim>\<open>message\<close> of the error.
\<close>

record Sharp =
  construct :: "Buffer \<Rightarrow> string option"
  toBuffer :: "format \<Rightarrow> FormatOptions \<Rightarrow> Buffer \<Rightarrow> string + Buffer"

text \<open>The values the plugin's hooks close over: the merged options and the filter.\<close>

record Plugin =
  options :: ImageCompressOptions
  accepts :: "string \<Rightarrow> bool"

subsection \<open>viteImageCompress: the option merge (lines 67-90)\<close>

definition defaultSharpOptions :: SharpCompressOptions where
  "defaultSharpOptions =
     \<lparr>jpeg = Value [(''quality'', Num 75)],
      png = Value [(''quality'', Num 75), (''compressionLevel'', Num 6)],
      webp = Value [(''quality'', Num 75)],
      gif = Value [],
      avif = Value [(''quality'', Num 50)]\<rparr>"

definition defaultOptions :: ImageCompressOptions where
  "defaultOptions =
     \<lparr>include_pattern = Value default_include,
      exclude_pattern = Undefined,
      sharpOptions = Value defaultSharpOptions,
      log = Value True\<rparr>"

text \<open>\<^verbatim>\<open>{...d, ...u}\<close> on two objects of sharp options, key by key.\<close>

definition spread_sharp :: "SharpCompressOptions \<Rightarrow> SharpCompressOptions \<Rightarrow> SharpCompressOptions" where
  "spread_sharp d u =
     \<lparr>jpeg = spread (jpeg d) (jpeg u),
      png = spread (png d) (png u),
      webp = spread (webp d) (webp u),
      gif = spread (gif d) (gif u),
      avif = spread (avif d) (avif u)\<rparr>"

text \<open>\<^verbatim>\<open>x || {}\<close>: an object is truthy, a missing or undefined one gives the empty
  object; spreading an object that is not there adds no key.\<close>

definition or_empty :: "SharpCompressOptions property \<Rightarrow> SharpCompressOptions" where
  "or_empty x = (case read x of None \<Rightarrow> no_sharp_options | Some so \<Rightarrow> so)"

definition mergeOptions :: "ImageCompressOptions \<Rightarrow> ImageCompressOptions" where
  "mergeOptions userOptions =
     \<lparr>include_pattern = spread (include_pattern defaultOptions) (include_pattern userOptions),
      exclude_pattern = spread (exclude_pattern defaultOptions) (exclude_pattern userOptions),
      sharpOptions =
        Value (spread_sharp (or_empty (sharpOptions defaultOptions))
                 (or_empty (sharpOptions userOptions))),
      log = spread (log defaultOptions) (log userOptions)\<rparr>"

text \<open>
  The plugin: the merged options and \<^verbatim>\<open>createFilter(options.include, options.exclude)\<close>.
  \<^verbatim>\<open>createFilter\<close> is the first argument here; it receives the two merged properties
  as they are read.
\<close>

definition viteImageCompress ::
  "(FilterPattern option \<Rightarrow> FilterPattern option \<Rightarrow> string \<Rightarrow> bool) \<Rightarrow>
   ImageCompressOptions \<Rightarrow> Plugin" where
  "viteImageCompress createFilter userOptions =
     (let opts = mergeOptions userOptions
      in \<lparr>options = opts,
          accepts = createFilter (read (include_pattern opts)) (read (exclude_pattern opts))\<rparr>)"

text \<open>\<^verbatim>\<open>const processedFiles = new Map()\<close>, and a logger and a codec not called yet.\<close>

definition initial :: State where
  "initial = \<lparr>processedFiles = [], effects = []\<rparr>"

text \<open>
  Modelled from the spec: \<^verbatim>\<open>createFilter\<close> of @rollup/pluginutils, which the plugin
  imports and src/ does not hold. The spec's Filter (4.1): a path is a candidate iff it
  matches include and does not match exclude, and the default exclude matches nothing.
  The spec is silent on an include that is undefined; the library's documented default is
  taken there (every path that is not excluded passes).
\<close>

definition createFilter :: "FilterPattern option \<Rightarrow> FilterPattern option \<Rightarrow> string \<Rightarrow> bool" where
  "createFilter inc exc p =
     ((case inc of None \<Rightarrow> True | Some i \<Rightarrow> i p) \<and>
      \<not> (case exc of None \<Rightarrow> False | Some e \<Rightarrow> e p))"

subsection \<open>generateBundle (lines 104-230)\<close>

definition emit :: "effect \<Rightarrow> State \<Rightarrow> State" where
  "emit e st = st\<lparr>effects := effects st @ [e]\<rparr>"

text \<open>\<^verbatim>\<open>if (options.log) viteConfig.logger.info(...)\<close>\<close>

definition truthy :: "bool property \<Rightarrow> bool" where
  "truthy x = (read x = Some True)"

definition info :: "ImageCompressOptions \<Rightarrow> effect \<Rightarrow> State \<Rightarrow> State" where
  "info opts e st = (if truthy (log opts) then emit e st else st)"

text \<open>\<^verbatim>\<open>processedFiles.set(fileName, { originalSize, compressedSize })\<close>\<close>

definition record_sizes :: "string \<Rightarrow> nat \<Rightarrow> nat \<Rightarrow> State \<Rightarrow> State" where
  "record_sizes fileName origSize newSize st =
     st\<lparr>processedFiles :=
          AList.update fileName \<lparr>originalSize = origSize, compressedSize = newSize\<rparr>
            (processedFiles st)\<rparr>"

text \<open>The labels of the \<^verbatim>\<open>switch (ext)\<close>; \<^const>\<open>None\<close> is its \<^verbatim>\<open>default\<close>.\<close>

definition format_of_ext :: "string \<Rightarrow> format option" where
  "format_of_ext ext =
     (if ext = ''.jpg'' \<or> ext = ''.jpeg'' then Some Jpeg
      else if ext = ''.png'' then Some Png
      else if ext = ''.webp'' then Some Webp
      else if ext = ''.gif'' then Some Gif
      else if ext = ''.avif'' then Some Avif
      else None)"

text \<open>\<^verbatim>\<open>options.sharpOptions?.jpeg\<close> and its four siblings.\<close>

definition format_property :: "format \<Rightarrow> SharpCompressOptions \<Rightarrow> FormatOptions property" where
  "format_property fmt so =
     (case fmt of Jpeg \<Rightarrow> jpeg so | Png \<Rightarrow> png so | Webp \<Rightarrow> webp so
      | Gif \<Rightarrow> gif so | Avif \<Rightarrow> avif so)"

definition formatSpecificOptions :: "ImageCompressOptions \<Rightarrow> format \<Rightarrow> FormatOptions option" where
  "formatSpecificOptions opts fmt =
     (case read (sharpOptions opts) of
        None \<Rightarrow> None
      | Some so \<Rightarrow> read (format_property fmt so))"

text \<open>\<^verbatim>\<open>formatSpecificOptions && Object.keys(formatSpecificOptions).length > 0\<close>\<close>

definition has_keys :: "FormatOptions option \<Rightarrow> bool" where
  "has_keys fso = (case fso of None \<Rightarrow> False | Some kvs \<Rightarrow> length kvs > 0)"

text \<open>
  Lines 196-218, after the switch: \<^verbatim>\<open>compressedBuffer\<close> is \<^const>\<open>None\<close> for
  \<^verbatim>\<open>null\<close> (a Buffer, even an empty one, is truthy). The result is the asset as the
  task leaves it and the new state.
\<close>

definition gate ::
  "ImageCompressOptions \<Rightarrow> string \<Rightarrow> OutputEntry \<Rightarrow> Buffer \<Rightarrow> nat \<Rightarrow> FormatOptions option \<Rightarrow>
   Buffer option \<Rightarrow> State \<Rightarrow> OutputEntry \<times> State" where
  "gate opts fileName assetInfo sourceBuffer origSize fso compressed st =
     (let (compressedBuffer, newSize) =
            (case compressed of None \<Rightarrow> (sourceBuffer, origSize) | Some b \<Rightarrow> (b, length b))
      in if newSize < origSize
         then (assetInfo\<lparr>source := Bytes compressedBuffer\<rparr>,
               record_sizes fileName origSize newSize st)
         else (assetInfo,
               record_sizes fileName origSize origSize
                 (if truthy (log opts) \<and> newSize > origSize
                  then emit (InfoNotSmaller fileName newSize origSize) st
                  else if truthy (log opts) \<and> newSize = origSize \<and> has_keys fso
                  then emit (InfoNoChange fileName origSize) st
                  else st)))"

text \<open>
  The \<^verbatim>\<open>try\<close> block of the task (lines 147-218). \<^const>\<open>Inl\<close> is a thrown error: its
  message and the state at the throw. Only the two calls into sharp can throw.
\<close>

definition task_try ::
  "Sharp \<Rightarrow> ImageCompressOptions \<Rightarrow> string \<Rightarrow> string \<Rightarrow> OutputEntry \<Rightarrow> Buffer \<Rightarrow> nat \<Rightarrow>
   State \<Rightarrow> (string \<times> State) + (OutputEntry \<times> State)" where
  "task_try sharp opts fileName ext assetInfo sourceBuffer origSize st =
     (let st1 = emit (SharpNew fileName) st in
      case construct sharp sourceBuffer of
        Some msg \<Rightarrow> Inl (msg, st1)
      | None \<Rightarrow>
          (case format_of_ext ext of
             None \<Rightarrow>
               Inr (assetInfo,
                    record_sizes fileName origSize origSize
                      (info opts (InfoUnsupported fileName) st1))
           | Some fmt \<Rightarrow>
               (let fso = formatSpecificOptions opts fmt in
                case fso of
                  None \<Rightarrow> Inr (gate opts fileName assetInfo sourceBuffer origSize fso None st1)
                | Some kvs \<Rightarrow>
                    if length kvs > 0
                    then (let st2 = emit (Encode fmt fileName kvs) st1 in
                          case toBuffer sharp fmt kvs sourceBuffer of
                            Inl msg \<Rightarrow> Inl (msg, st2)
                          | Inr b \<Rightarrow>
                              Inr (gate opts fileName assetInfo sourceBuffer origSize fso
                                     (Some b) st2))
                    else Inr (gate opts fileName assetInfo sourceBuffer origSize fso None st1))))"

text \<open>The task: the \<^verbatim>\<open>try\<close> block and its \<^verbatim>\<open>catch\<close> (lines 220-223).\<close>

definition task ::
  "Sharp \<Rightarrow> ImageCompressOptions \<Rightarrow> string \<Rightarrow> string \<Rightarrow> OutputEntry \<Rightarrow> Buffer \<Rightarrow> nat \<Rightarrow>
   State \<Rightarrow> OutputEntry \<times> State" where
  "task sharp opts fileName ext assetInfo sourceBuffer origSize st =
     (case task_try sharp opts fileName ext assetInfo sourceBuffer origSize st of
        Inl (msg, st') \<Rightarrow>
          (assetInfo, record_sizes fileName origSize origSize (emit (ErrorFailed fileName msg) st'))
      | Inr r \<Rightarrow> r)"

text \<open>Lines 125-226: what the loop does with an asset once its bytes are known.\<close>

definition with_buffer ::
  "Sharp \<Rightarrow> ImageCompressOptions \<Rightarrow> string \<Rightarrow> OutputEntry \<Rightarrow> Buffer \<Rightarrow> bool \<Rightarrow> State \<Rightarrow>
   OutputEntry \<times> State" where
  "with_buffer sharp opts fileName assetInfo sourceBuffer sourceIsString st =
     (let origSize = length sourceBuffer;
          ext = toLowerCase (extname fileName)
      in if ext = ''.svg''
         then (assetInfo, record_sizes fileName origSize origSize (info opts (InfoSkipSvg fileName) st))
         else if sourceIsString
         then (assetInfo,
               record_sizes fileName origSize origSize (emit (WarnStringSource fileName) st))
         else task sharp opts fileName ext assetInfo sourceBuffer origSize st)"

text \<open>Lines 113-123: the bytes of the source and whether it was a string; \<^const>\<open>None\<close> for a
  source that is neither a string nor a \<^verbatim>\<open>Uint8Array\<close>.\<close>

definition read_source :: "source \<Rightarrow> (Buffer \<times> bool) option" where
  "read_source src =
     (case src of
        Text s \<Rightarrow> Some (Buffer_from_utf8 s, True)
      | Bytes b \<Rightarrow> Some (b, False)
      | Neither \<Rightarrow> None)"

text \<open>One turn of the \<^verbatim>\<open>for\<close> loop (lines 108-227).\<close>

definition visit :: "Sharp \<Rightarrow> Plugin \<Rightarrow> string \<Rightarrow> OutputEntry \<Rightarrow> State \<Rightarrow> OutputEntry \<times> State" where
  "visit sharp plugin fileName assetInfo st =
     (if type assetInfo \<noteq> asset \<or> \<not> accepts plugin fileName then (assetInfo, st)
      else case read_source (source assetInfo) of
             None \<Rightarrow> (assetInfo, emit (WarnUnknownSource fileName) st)
           | Some (sourceBuffer, sourceIsString) \<Rightarrow>
               with_buffer sharp (options plugin) fileName assetInfo sourceBuffer sourceIsString st)"

text \<open>
  The hook, with every task run to its end as soon as it is started. The tasks of the
  source are asynchronous: a task that encodes is suspended at its \<^verbatim>\<open>await\<close> and
  resumed when sharp is done, in any order. Each task writes the ledger at its own file
  name and assigns to its own asset only; the hook with its awaits and a schedule is
  \<open>generateBundle_scheduled\<close> below, and \<open>schedule_irrelevant\<close> shows that every
  schedule leaves the bundle, the ledger and the calls of this function.
\<close>

fun generateBundle :: "Sharp \<Rightarrow> Plugin \<Rightarrow> Bundle \<Rightarrow> State \<Rightarrow> Bundle \<times> State" where
  "generateBundle sharp plugin [] st = ([], st)"
| "generateBundle sharp plugin ((fileName, assetInfo) # rest) st =
     (let (assetInfo', st') = visit sharp plugin fileName assetInfo st;
          (rest', st'') = generateBundle sharp plugin rest st'
      in ((fileName, assetInfo') # rest', st''))"

subsection \<open>The hook with its awaits\<close>

text \<open>
  A task suspended at its \<^verbatim>\<open>await\<close> (lines 157, 163, 169, 177, 183): the file, the asset,
  its bytes and their length, and the format method with the options whose
  \<^verbatim>\<open>toBuffer()\<close> is pending.
\<close>

datatype Pending = Pending string OutputEntry Buffer nat format FormatOptions

fun file_of :: "Pending \<Rightarrow> string" where
  "file_of (Pending f a sb n fmt kvs) = f"

text \<open>
  The task from its call to its first \<^verbatim>\<open>await\<close>, or to its end when it does not
  await: the constructor, the switch, and for a kind with options the call of the format
  method and of \<^verbatim>\<open>toBuffer()\<close>, whose promise the task then waits for.
\<close>

definition task_begin ::
  "Sharp \<Rightarrow> ImageCompressOptions \<Rightarrow> string \<Rightarrow> string \<Rightarrow> OutputEntry \<Rightarrow> Buffer \<Rightarrow> nat \<Rightarrow>
   State \<Rightarrow> (OutputEntry \<times> State) \<times> Pending option" where
  "task_begin sharp opts fileName ext assetInfo sourceBuffer origSize st =
     (let st1 = emit (SharpNew fileName) st in
      case construct sharp sourceBuffer of
        Some msg \<Rightarrow>
          ((assetInfo,
            record_sizes fileName origSize origSize (emit (ErrorFailed fileName msg) st1)), None)
      | None \<Rightarrow>
          (case format_of_ext ext of
             None \<Rightarrow>
               ((assetInfo,
                 record_sizes fileName origSize origSize
                   (info opts (InfoUnsupported fileName) st1)), None)
           | Some fmt \<Rightarrow>
               (let fso = formatSpecificOptions opts fmt in
                case fso of
                  None \<Rightarrow> (gate opts fileName assetInfo sourceBuffer origSize fso None st1, None)
                | Some kvs \<Rightarrow>
                    if length kvs > 0
                    then ((assetInfo, emit (Encode fmt fileName kvs) st1),
                          Some (Pending fileName assetInfo sourceBuffer origSize fmt kvs))
                    else (gate opts fileName assetInfo sourceBuffer origSize fso None st1, None))))"

text \<open>The rest of the task, run when the promise settles: the gate when it is fulfilled,
  the \<^verbatim>\<open>catch\<close> when it is rejected.\<close>

fun task_resume :: "Sharp \<Rightarrow> ImageCompressOptions \<Rightarrow> Pending \<Rightarrow> State \<Rightarrow> OutputEntry \<times> State" where
  "task_resume sharp opts (Pending fileName assetInfo sourceBuffer origSize fmt kvs) st =
     (case toBuffer sharp fmt kvs sourceBuffer of
        Inl msg \<Rightarrow>
          (assetInfo,
           record_sizes fileName origSize origSize (emit (ErrorFailed fileName msg) st))
      | Inr b \<Rightarrow> gate opts fileName assetInfo sourceBuffer origSize (Some kvs) (Some b) st)"

text \<open>One turn of the loop up to the task's first \<^verbatim>\<open>await\<close>.\<close>

definition visit_begin ::
  "Sharp \<Rightarrow> Plugin \<Rightarrow> string \<Rightarrow> OutputEntry \<Rightarrow> State \<Rightarrow> (OutputEntry \<times> State) \<times> Pending option" where
  "visit_begin sharp plugin fileName assetInfo st =
     (if type assetInfo \<noteq> asset \<or> \<not> accepts plugin fileName then ((assetInfo, st), None)
      else case read_source (source assetInfo) of
             None \<Rightarrow> ((assetInfo, emit (WarnUnknownSource fileName) st), None)
           | Some (sourceBuffer, sourceIsString) \<Rightarrow>
               (let origSize = length sourceBuffer;
                    ext = toLowerCase (extname fileName)
                in if ext = ''.svg''
                   then ((assetInfo,
                          record_sizes fileName origSize origSize
                            (info (options plugin) (InfoSkipSvg fileName) st)), None)
                   else if sourceIsString
                   then ((assetInfo,
                          record_sizes fileName origSize origSize
                            (emit (WarnStringSource fileName) st)), None)
                   else task_begin sharp (options plugin) fileName ext assetInfo sourceBuffer
                          origSize st))"

text \<open>The \<^verbatim>\<open>for\<close> loop: every turn up to its \<^verbatim>\<open>await\<close>, and the tasks left
  pending, in the order of their start.\<close>

fun loop_begin :: "Sharp \<Rightarrow> Plugin \<Rightarrow> Bundle \<Rightarrow> State \<Rightarrow> Bundle \<times> State \<times> Pending list" where
  "loop_begin sharp plugin [] st = ([], st, [])"
| "loop_begin sharp plugin ((fileName, assetInfo) # rest) st =
     (let ((assetInfo', st'), p) = visit_begin sharp plugin fileName assetInfo st;
          (rest', st'', ps) = loop_begin sharp plugin rest st'
      in ((fileName, assetInfo') # rest', st'',
          (case p of None \<Rightarrow> ps | Some q \<Rightarrow> q # ps)))"

text \<open>A pending task is resumed: it works on the asset object of its file.\<close>

definition settle :: "Sharp \<Rightarrow> Plugin \<Rightarrow> Pending \<Rightarrow> Bundle \<times> State \<Rightarrow> Bundle \<times> State" where
  "settle sharp plugin p bs =
     (let (assetInfo', st') = task_resume sharp (options plugin) p (snd bs)
      in (map (\<lambda>(g, x). if g = file_of p then (g, assetInfo') else (g, x)) (fst bs), st'))"

text \<open>
  The hook under a schedule: the loop, then \<^verbatim>\<open>await Promise.all(...)\<close>, during which
  the pending tasks are resumed in the order \<open>sched\<close> in which their promises settle.
\<close>

definition generateBundle_scheduled ::
  "Sharp \<Rightarrow> Plugin \<Rightarrow> Pending list \<Rightarrow> Bundle \<Rightarrow> State \<Rightarrow> Bundle \<times> State" where
  "generateBundle_scheduled sharp plugin sched bundle st =
     (let (bundle1, st1, ps) = loop_begin sharp plugin bundle st
      in fold (settle sharp plugin) sched (bundle1, st1))"

definition pending_tasks :: "Sharp \<Rightarrow> Plugin \<Rightarrow> Bundle \<Rightarrow> Pending list" where
  "pending_tasks sharp plugin bundle = snd (snd (loop_begin sharp plugin bundle initial))"

subsection \<open>closeBundle: the status column (lines 244-261)\<close>

datatype status = SkippedSvg | Compressed | Unchanged | ErrorOrNotCompressed

definition row_status :: "string \<Rightarrow> sizes \<Rightarrow> status" where
  "row_status fileName sz =
     (let sizeChange = int (originalSize sz) - int (compressedSize sz);
          ext = toLowerCase (extname fileName)
      in if ext = ''.svg'' then SkippedSvg
         else if sizeChange > 0 then Compressed
         else if sizeChange = 0 then Unchanged
         else ErrorOrNotCompressed)"

text \<open>The rows of the table, none when the hook returns at once.\<close>

definition closeBundle :: "Plugin \<Rightarrow> State \<Rightarrow> (string \<times> status) list" where
  "closeBundle plugin st =
     (if \<not> truthy (log (options plugin)) \<or> length (processedFiles st) = 0 then []
      else map (\<lambda>(fileName, sz). (fileName, row_status fileName sz)) (processedFiles st))"

subsection \<open>Reading the model\<close>

text \<open>An asset the loop does not skip at line 109: a candidate.\<close>

definition candidate :: "Plugin \<Rightarrow> string \<Rightarrow> OutputEntry \<Rightarrow> bool" where
  "candidate plugin fileName assetInfo = (type assetInfo = asset \<and> accepts plugin fileName)"

definition ext_of :: "string \<Rightarrow> string" where
  "ext_of fileName = toLowerCase (extname fileName)"

text \<open>The first batch of a new plugin with every task run to its end at once: the bundle,
  the ledger and the trace that leaves.\<close>

definition bundle_seq :: "Sharp \<Rightarrow> Plugin \<Rightarrow> Bundle \<Rightarrow> Bundle" where
  "bundle_seq sharp plugin bundle = fst (generateBundle sharp plugin bundle initial)"

definition ledger_seq :: "Sharp \<Rightarrow> Plugin \<Rightarrow> Bundle \<Rightarrow> Ledger" where
  "ledger_seq sharp plugin bundle =
     processedFiles (snd (generateBundle sharp plugin bundle initial))"

definition trace_seq :: "Sharp \<Rightarrow> Plugin \<Rightarrow> Bundle \<Rightarrow> effect list" where
  "trace_seq sharp plugin bundle = effects (snd (generateBundle sharp plugin bundle initial))"

text \<open>One turn of the loop seen from a new plugin: the asset it leaves, the ledger entry it
  writes for its file, and the calls it makes.\<close>

definition result :: "Sharp \<Rightarrow> Plugin \<Rightarrow> string \<Rightarrow> OutputEntry \<Rightarrow> OutputEntry" where
  "result sharp plugin fileName assetInfo = fst (visit sharp plugin fileName assetInfo initial)"

definition written :: "Sharp \<Rightarrow> Plugin \<Rightarrow> string \<Rightarrow> OutputEntry \<Rightarrow> sizes option" where
  "written sharp plugin fileName assetInfo =
     map_of (processedFiles (snd (visit sharp plugin fileName assetInfo initial))) fileName"

definition emitted :: "Sharp \<Rightarrow> Plugin \<Rightarrow> string \<Rightarrow> OutputEntry \<Rightarrow> effect list" where
  "emitted sharp plugin fileName assetInfo =
     effects (snd (visit sharp plugin fileName assetInfo initial))"

text \<open>One turn up to its \<^verbatim>\<open>await\<close> and one resumed task, seen from a new plugin.\<close>

definition begun_written :: "Sharp \<Rightarrow> Plugin \<Rightarrow> string \<Rightarrow> OutputEntry \<Rightarrow> sizes option" where
  "begun_written S P f a = map_of (processedFiles (snd (fst (visit_begin S P f a initial)))) f"

definition begun_emitted :: "Sharp \<Rightarrow> Plugin \<Rightarrow> string \<Rightarrow> OutputEntry \<Rightarrow> effect list" where
  "begun_emitted S P f a = effects (snd (fst (visit_begin S P f a initial)))"

definition begun_pending :: "Sharp \<Rightarrow> Plugin \<Rightarrow> string \<Rightarrow> OutputEntry \<Rightarrow> Pending option" where
  "begun_pending S P f a = snd (visit_begin S P f a initial)"

definition resumed_asset :: "Sharp \<Rightarrow> Plugin \<Rightarrow> Pending \<Rightarrow> OutputEntry" where
  "resumed_asset S P p = fst (task_resume S (options P) p initial)"

definition resumed_written :: "Sharp \<Rightarrow> Plugin \<Rightarrow> Pending \<Rightarrow> sizes option" where
  "resumed_written S P p =
     map_of (processedFiles (snd (task_resume S (options P) p initial))) (file_of p)"

definition resumed_emitted :: "Sharp \<Rightarrow> Plugin \<Rightarrow> Pending \<Rightarrow> effect list" where
  "resumed_emitted S P p = effects (snd (task_resume S (options P) p initial))"

text \<open>
  A schedule of a batch: the tasks the loop leaves pending, each once, in the order in
  which their promises settle.
\<close>

definition schedule :: "Sharp \<Rightarrow> Plugin \<Rightarrow> Bundle \<Rightarrow> Pending list \<Rightarrow> bool" where
  "schedule sharp plugin bundle sched =
     (distinct sched \<and> set sched = set (pending_tasks sharp plugin bundle))"

text \<open>The first call of the hook on a new plugin, under a schedule: the bundle, the
  ledger and the trace it leaves.\<close>

definition bundle_after :: "Sharp \<Rightarrow> Plugin \<Rightarrow> Pending list \<Rightarrow> Bundle \<Rightarrow> Bundle" where
  "bundle_after sharp plugin sched bundle =
     fst (generateBundle_scheduled sharp plugin sched bundle initial)"

definition ledger_after :: "Sharp \<Rightarrow> Plugin \<Rightarrow> Pending list \<Rightarrow> Bundle \<Rightarrow> Ledger" where
  "ledger_after sharp plugin sched bundle =
     processedFiles (snd (generateBundle_scheduled sharp plugin sched bundle initial))"

definition trace_after :: "Sharp \<Rightarrow> Plugin \<Rightarrow> Pending list \<Rightarrow> Bundle \<Rightarrow> effect list" where
  "trace_after sharp plugin sched bundle =
     effects (snd (generateBundle_scheduled sharp plugin sched bundle initial))"

text \<open>A state change that touches the ledger at one file only and appends to the trace.\<close>

definition apply_at :: "string \<Rightarrow> sizes option \<Rightarrow> effect list \<Rightarrow> State \<Rightarrow> State" where
  "apply_at f w es st =
     st\<lparr>processedFiles :=
          (case w of None \<Rightarrow> processedFiles st | Some sz \<Rightarrow> AList.update f sz (processedFiles st)),
        effects := effects st @ es\<rparr>"

text \<open>The file a call to sharp is about.\<close>

fun sharp_call_on :: "string \<Rightarrow> effect \<Rightarrow> bool" where
  "sharp_call_on f (SharpNew g) = (g = f)"
| "sharp_call_on f (Encode fmt g kvs) = (g = f)"
| "sharp_call_on f e = False"


text \<open>
  Test doubles, after the mocks of the repository's test file: a sharp whose constructor
  succeeds and whose \<^verbatim>\<open>toBuffer\<close> always settles the same way.
\<close>

definition mock_sharp :: "string + Buffer \<Rightarrow> Sharp" where
  "mock_sharp r = \<lparr>construct = (\<lambda>b. None), toBuffer = (\<lambda>fmt kvs b. r)\<rparr>"

text \<open>The pattern \<^verbatim>\<open>/\.webp$/\<close>.\<close>

definition webp_pattern :: FilterPattern where
  "webp_pattern p = endsWith p ''.webp''"

section \<open>Each turn of the loop is local to its file\<close>

lemma apply_at_id: "apply_at f None [] st = st"
  by (simp add: apply_at_def)

lemma emit_apply_at: "emit e (apply_at f w es st) = apply_at f w (es @ [e]) st"
  by (simp add: emit_def apply_at_def)

lemma info_apply_at:
  "info opts e (apply_at f w es st) = apply_at f w (es @ (if truthy (log opts) then [e] else [])) st"
  by (simp add: info_def emit_apply_at)

lemma record_sizes_apply_at:
  "record_sizes f n m (apply_at f w es st) =
     apply_at f (Some \<lparr>originalSize = n, compressedSize = m\<rparr>) es st"
  by (cases w) (simp_all add: record_sizes_def apply_at_def)

lemma apply_at_if:
  "(if c then apply_at f w es1 st else apply_at f w es2 st) =
     apply_at f w (if c then es1 else es2) st"
  by simp

lemmas apply_at_simps = emit_apply_at info_apply_at record_sizes_apply_at apply_at_if

lemma localI:
  "(\<And>st. F st = (a', apply_at f w es st)) \<Longrightarrow> \<exists>a' w es. \<forall>st. F st = (a', apply_at f w es st)"
  by blast

lemma gate_local:
  "\<exists>a' w es. \<forall>st. gate opts f a sb n fso c (apply_at f w0 es0 st) = (a', apply_at f w es st)"
proof (cases c)
  case None
  then show ?thesis
    by (intro localI) (simp add: gate_def apply_at_simps split del: if_split cong: if_cong)
next
  case (Some b)
  show ?thesis
  proof (cases "length b < n")
    case True
    with Some show ?thesis
      by (intro localI) (simp add: gate_def apply_at_simps split del: if_split cong: if_cong)
  next
    case False
    with Some show ?thesis
      by (intro localI) (simp add: gate_def apply_at_simps split del: if_split cong: if_cong)
  qed
qed

lemma catch_local:
  "\<exists>a' w es. \<forall>st. (a, record_sizes f n n (emit (ErrorFailed f msg) (apply_at f w0 es0 st))) =
      (a', apply_at f w es st)"
  by (intro localI) (simp add: apply_at_simps)

lemma task_local:
  "\<exists>a' w es. \<forall>st. task S opts f ext a sb n (apply_at f w0 es0 st) = (a', apply_at f w es st)"
proof (cases "construct S sb")
  case (Some msg)
  then show ?thesis
    using catch_local [of a f n msg w0 "es0 @ [SharpNew f]"]
    by (simp add: task_def task_try_def apply_at_simps)
next
  case None
  note ctor = this
  show ?thesis
  proof (cases "format_of_ext ext")
    case None
    with ctor show ?thesis
      by (intro localI) (simp add: task_def task_try_def apply_at_simps split del: if_split)
  next
    case (Some fmt)
    note fm = this
    show ?thesis
    proof (cases "formatSpecificOptions opts fmt")
      case None
      with ctor fm show ?thesis
        using gate_local [of opts f a sb n None None w0 "es0 @ [SharpNew f]"]
        by (simp add: task_def task_try_def apply_at_simps)
    next
      case (Some kvs)
      note fs = this
      show ?thesis
      proof (cases "length kvs > 0")
        case False
        with ctor fm fs show ?thesis
          using gate_local [of opts f a sb n "Some kvs" None w0 "es0 @ [SharpNew f]"]
          by (simp add: task_def task_try_def apply_at_simps)
      next
        case True
        note ne = this
        show ?thesis
        proof (cases "toBuffer S fmt kvs sb")
          case (Inl msg)
          with ctor fm fs ne show ?thesis
            using catch_local [of a f n msg w0 "es0 @ [SharpNew f, Encode fmt f kvs]"]
            by (simp add: task_def task_try_def apply_at_simps)
        next
          case (Inr b)
          with ctor fm fs ne show ?thesis
            using gate_local [of opts f a sb n "Some kvs" "Some b" w0 "es0 @ [SharpNew f, Encode fmt f kvs]"]
            by (simp add: task_def task_try_def apply_at_simps)
        qed
      qed
    qed
  qed
qed

lemma with_buffer_local:
  "\<exists>a' w es. \<forall>st. with_buffer S opts f a sb isStr (apply_at f w0 es0 st) = (a', apply_at f w es st)"
proof (cases "toLowerCase (extname f) = ''.svg''")
  case True
  then show ?thesis
    by (intro localI) (simp add: with_buffer_def apply_at_simps Let_def split del: if_split)
next
  case False
  note nsvg = this
  show ?thesis
  proof (cases isStr)
    case True
    with nsvg show ?thesis
      by (intro localI) (simp add: with_buffer_def apply_at_simps Let_def split del: if_split)
  next
    case False
    with nsvg show ?thesis
      using task_local [of S opts f "toLowerCase (extname f)" a sb "length sb" w0 es0]
      by (simp add: with_buffer_def Let_def)
  qed
qed

lemma visit_local: "\<exists>a' w es. \<forall>st. visit S P f a st = (a', apply_at f w es st)"
proof (cases "type a \<noteq> asset \<or> \<not> accepts P f")
  case True
  then have "\<forall>st. visit S P f a st = (a, apply_at f None [] st)"
    by (simp add: visit_def apply_at_id)
  then show ?thesis by blast
next
  case False
  show ?thesis
  proof (cases "read_source (source a)")
    case (Some r)
    obtain sb isStr where "r = (sb, isStr)" by (cases r)
    with Some False show ?thesis
      using with_buffer_local [of S "options P" f a sb isStr None "[]"]
      by (simp add: visit_def apply_at_id)
  next
    case None
    with False have "\<forall>st. visit S P f a st = (a, apply_at f None [WarnUnknownSource f] st)"
      by (simp add: visit_def emit_def apply_at_def)
    then show ?thesis by blast
  qed
qed

lemma visit_decompose:
  "visit S P f a st = (result S P f a, apply_at f (written S P f a) (emitted S P f a) st)"
proof -
  obtain a' w es where *: "\<And>st. visit S P f a st = (a', apply_at f w es st)"
    using visit_local by blast
  have "result S P f a = a'" "emitted S P f a = es" "written S P f a = w"
    by (cases w; simp add: result_def emitted_def written_def * apply_at_def initial_def)+
  with * show ?thesis by simp
qed


subsection \<open>The loop as a composition of its turns\<close>

lemma processedFiles_apply_at:
  "processedFiles (apply_at f w es st) =
     (case w of None \<Rightarrow> processedFiles st | Some sz \<Rightarrow> AList.update f sz (processedFiles st))"
  by (simp add: apply_at_def)

lemma effects_apply_at: "effects (apply_at f w es st) = effects st @ es"
  by (simp add: apply_at_def)

lemmas apply_at_sel = processedFiles_apply_at effects_apply_at

lemma generateBundle_decompose:
  "generateBundle S P entries st =
     (map (\<lambda>(f, a). (f, result S P f a)) entries,
      fold (\<lambda>(f, a). apply_at f (written S P f a) (emitted S P f a)) entries st)"
  by (induction entries arbitrary: st) (auto simp: visit_decompose)

lemma fold_apply_at_effects:
  "effects (fold (\<lambda>(f, a). apply_at f (w f a) (es f a)) entries st) =
     effects st @ concat (map (\<lambda>(f, a). es f a) entries)"
  by (induction entries arbitrary: st) (auto simp: apply_at_sel)

lemma fold_apply_at_other:
  "g \<notin> fst ` set entries \<Longrightarrow>
   map_of (processedFiles (fold (\<lambda>(f, a). apply_at f (w f a) (es f a)) entries st)) g =
     map_of (processedFiles st) g"
  by (induction entries arbitrary: st)
     (auto simp: apply_at_sel update_conv' split: option.splits)

lemma fold_apply_at_ledger:
  "distinct (map fst entries) \<Longrightarrow> (g, a) \<in> set entries \<Longrightarrow>
   map_of (processedFiles (fold (\<lambda>(f, a). apply_at f (w f a) (es f a)) entries st)) g =
     (case w g a of None \<Rightarrow> map_of (processedFiles st) g | Some sz \<Rightarrow> Some sz)"
proof (induction entries arbitrary: st)
  case Nil
  then show ?case by simp
next
  case (Cons x entries)
  obtain f b where x: "x = (f, b)" by (cases x)
  show ?case
  proof (cases "g = f")
    case True
    with Cons.prems x have "a = b" and "g \<notin> fst ` set entries"
      by (auto simp: image_iff)
    then have "map_of (processedFiles (fold (\<lambda>(f, a). apply_at f (w f a) (es f a)) entries
                 (apply_at f (w f b) (es f b) st))) g =
               map_of (processedFiles (apply_at f (w f b) (es f b) st)) g"
      by (intro fold_apply_at_other)
    with True x \<open>a = b\<close> show ?thesis
      by (simp add: apply_at_sel update_conv' split: option.splits)
  next
    case False
    with Cons.prems x have "(g, a) \<in> set entries" and "distinct (map fst entries)"
      by auto
    then have "map_of (processedFiles (fold (\<lambda>(f, a). apply_at f (w f a) (es f a)) entries
                 (apply_at f (w f b) (es f b) st))) g =
               (case w g a of None \<Rightarrow> map_of (processedFiles (apply_at f (w f b) (es f b) st)) g
                | Some sz \<Rightarrow> Some sz)"
      by (intro Cons.IH)
    with False x show ?thesis
      by (simp add: apply_at_sel update_conv' split: option.splits)
  qed
qed

lemma fold_apply_at_keys:
  "distinct (map fst entries) \<Longrightarrow> fst ` set entries \<inter> fst ` set (processedFiles st) = {} \<Longrightarrow>
   map fst (processedFiles (fold (\<lambda>(f, a). apply_at f (w f a) (es f a)) entries st)) =
     map fst (processedFiles st) @ map fst (filter (\<lambda>(f, a). w f a \<noteq> None) entries)"
proof (induction entries arbitrary: st)
  case Nil
  then show ?case by simp
next
  case (Cons x entries)
  obtain f b where x: "x = (f, b)" by (cases x)
  let ?st = "apply_at f (w f b) (es f b) st"
  have keys: "map fst (processedFiles ?st) =
      map fst (processedFiles st) @ (if w f b = None then [] else [f])"
    using Cons.prems x by (auto simp: apply_at_sel update_keys image_iff split: option.splits)
  have "set (map fst (processedFiles ?st)) \<subseteq> insert f (set (map fst (processedFiles st)))"
    unfolding keys by auto
  moreover have "f \<notin> fst ` set entries"
    using Cons.prems x by (auto simp: image_iff)
  ultimately have "fst ` set entries \<inter> fst ` set (processedFiles ?st) = {}"
    using Cons.prems(2) by (simp add: x) blast
  moreover have "distinct (map fst entries)" using Cons.prems by simp
  ultimately have "map fst (processedFiles (fold (\<lambda>(f, a). apply_at f (w f a) (es f a)) entries ?st)) =
     map fst (processedFiles ?st) @ map fst (filter (\<lambda>(f, a). w f a \<noteq> None) entries)"
    by (rule Cons.IH [rotated])
  with keys x show ?case by simp
qed

subsection \<open>The branches of one turn\<close>

lemma outcomeI:
  assumes "\<And>st. visit S P f a st = (a', apply_at f w es st)"
  shows "result S P f a = a' \<and> written S P f a = w \<and> emitted S P f a = es"
  using assms [of initial]
  by (cases w) (simp_all add: result_def written_def emitted_def apply_at_def initial_def)

lemmas branch_defs = visit_def with_buffer_def task_def task_try_def gate_def candidate_def
  ext_of_def has_keys_def Let_def

lemma start_at: "st = apply_at f None [] st"
  by (simp add: apply_at_id)

lemma turn_skipped:
  assumes "\<not> candidate P f a"
  shows "result S P f a = a \<and> written S P f a = None \<and> emitted S P f a = []"
  using assms by (intro outcomeI) (simp add: branch_defs apply_at_id)

lemma turn_unknown_source:
  assumes "candidate P f a" "read_source (source a) = None"
  shows "result S P f a = a \<and> written S P f a = None \<and> emitted S P f a = [WarnUnknownSource f]"
proof (intro outcomeI)
  fix st
  show "visit S P f a st = (a, apply_at f None [WarnUnknownSource f] st)"
    using assms by (subst start_at [of st f]) (simp add: branch_defs apply_at_simps)
qed

lemma turn_svg:
  assumes "candidate P f a" "read_source (source a) = Some (sb, isStr)" "ext_of f = ''.svg''"
  shows "result S P f a = a \<and>
         written S P f a = Some \<lparr>originalSize = length sb, compressedSize = length sb\<rparr> \<and>
         emitted S P f a = (if truthy (log (options P)) then [InfoSkipSvg f] else [])"
proof (intro outcomeI)
  fix st
  show "visit S P f a st =
      (a, apply_at f (Some \<lparr>originalSize = length sb, compressedSize = length sb\<rparr>)
            (if truthy (log (options P)) then [InfoSkipSvg f] else []) st)"
    using assms
    by (subst start_at [of st f]) (simp add: branch_defs apply_at_simps split del: if_split)
qed

lemma turn_string:
  assumes "candidate P f a" "read_source (source a) = Some (sb, True)" "ext_of f \<noteq> ''.svg''"
  shows "result S P f a = a \<and>
         written S P f a = Some \<lparr>originalSize = length sb, compressedSize = length sb\<rparr> \<and>
         emitted S P f a = [WarnStringSource f]"
proof (intro outcomeI)
  fix st
  show "visit S P f a st =
      (a, apply_at f (Some \<lparr>originalSize = length sb, compressedSize = length sb\<rparr>)
            [WarnStringSource f] st)"
    using assms
    by (subst start_at [of st f]) (simp add: branch_defs apply_at_simps split del: if_split)
qed

lemma turn_constructor_throws:
  assumes "candidate P f a" "read_source (source a) = Some (sb, False)" "ext_of f \<noteq> ''.svg''"
    and "construct S sb = Some msg"
  shows "result S P f a = a \<and>
         written S P f a = Some \<lparr>originalSize = length sb, compressedSize = length sb\<rparr> \<and>
         emitted S P f a = [SharpNew f, ErrorFailed f msg]"
proof (intro outcomeI)
  fix st
  show "visit S P f a st =
      (a, apply_at f (Some \<lparr>originalSize = length sb, compressedSize = length sb\<rparr>)
            [SharpNew f, ErrorFailed f msg] st)"
    using assms
    by (subst start_at [of st f]) (simp add: branch_defs apply_at_simps split del: if_split)
qed

lemma turn_unsupported:
  assumes "candidate P f a" "read_source (source a) = Some (sb, False)" "ext_of f \<noteq> ''.svg''"
    and "construct S sb = None" "format_of_ext (ext_of f) = None"
  shows "result S P f a = a \<and>
         written S P f a = Some \<lparr>originalSize = length sb, compressedSize = length sb\<rparr> \<and>
         emitted S P f a =
           SharpNew f # (if truthy (log (options P)) then [InfoUnsupported f] else [])"
proof (intro outcomeI)
  fix st
  show "visit S P f a st =
      (a, apply_at f (Some \<lparr>originalSize = length sb, compressedSize = length sb\<rparr>)
            (SharpNew f # (if truthy (log (options P)) then [InfoUnsupported f] else [])) st)"
    using assms
    by (subst start_at [of st f]) (simp add: branch_defs apply_at_simps split del: if_split)
qed

lemma turn_no_options:
  assumes "candidate P f a" "read_source (source a) = Some (sb, False)" "ext_of f \<noteq> ''.svg''"
    and "construct S sb = None" "format_of_ext (ext_of f) = Some fmt"
    and "\<not> has_keys (formatSpecificOptions (options P) fmt)"
  shows "result S P f a = a \<and>
         written S P f a = Some \<lparr>originalSize = length sb, compressedSize = length sb\<rparr> \<and>
         emitted S P f a = [SharpNew f]"
proof (intro outcomeI)
  fix st
  show "visit S P f a st =
      (a, apply_at f (Some \<lparr>originalSize = length sb, compressedSize = length sb\<rparr>)
            [SharpNew f] st)"
    using assms
    by (subst start_at [of st f])
       (simp add: branch_defs apply_at_simps split del: if_split split: option.splits)
qed

lemma turn_encode_fails:
  assumes "candidate P f a" "read_source (source a) = Some (sb, False)" "ext_of f \<noteq> ''.svg''"
    and "construct S sb = None" "format_of_ext (ext_of f) = Some fmt"
    and "formatSpecificOptions (options P) fmt = Some kvs" "kvs \<noteq> []"
    and "toBuffer S fmt kvs sb = Inl msg"
  shows "result S P f a = a \<and>
         written S P f a = Some \<lparr>originalSize = length sb, compressedSize = length sb\<rparr> \<and>
         emitted S P f a = [SharpNew f, Encode fmt f kvs, ErrorFailed f msg]"
proof (intro outcomeI)
  fix st
  show "visit S P f a st =
      (a, apply_at f (Some \<lparr>originalSize = length sb, compressedSize = length sb\<rparr>)
            [SharpNew f, Encode fmt f kvs, ErrorFailed f msg] st)"
    using assms
    by (subst start_at [of st f]) (simp add: branch_defs apply_at_simps split del: if_split)
qed

lemma turn_encoded:
  assumes "candidate P f a" "read_source (source a) = Some (sb, False)" "ext_of f \<noteq> ''.svg''"
    and "construct S sb = None" "format_of_ext (ext_of f) = Some fmt"
    and "formatSpecificOptions (options P) fmt = Some kvs" "kvs \<noteq> []"
    and "toBuffer S fmt kvs sb = Inr c"
  shows "result S P f a = (if length c < length sb then a\<lparr>source := Bytes c\<rparr> else a) \<and>
         written S P f a =
           Some \<lparr>originalSize = length sb,
                 compressedSize = (if length c < length sb then length c else length sb)\<rparr> \<and>
         emitted S P f a =
           [SharpNew f, Encode fmt f kvs] @
           (if length c < length sb then []
            else if truthy (log (options P)) \<and> length c > length sb
            then [InfoNotSmaller f (length c) (length sb)]
            else if truthy (log (options P)) \<and> length c = length sb
            then [InfoNoChange f (length sb)] else [])"
proof (intro outcomeI)
  fix st
  show "visit S P f a st =
      (if length c < length sb then a\<lparr>source := Bytes c\<rparr> else a,
       apply_at f (Some \<lparr>originalSize = length sb,
                 compressedSize = (if length c < length sb then length c else length sb)\<rparr>)
            ([SharpNew f, Encode fmt f kvs] @
           (if length c < length sb then []
            else if truthy (log (options P)) \<and> length c > length sb
            then [InfoNotSmaller f (length c) (length sb)]
            else if truthy (log (options P)) \<and> length c = length sb
            then [InfoNoChange f (length sb)] else [])) st)"
  proof (cases "length c < length sb")
    case True
    with assms show ?thesis
      by (subst start_at [of st f])
         (simp add: branch_defs apply_at_simps split del: if_split cong: if_cong)
  next
    case False
    note ge = this
    show ?thesis
    proof (cases "truthy (log (options P))")
      case True
      note lg = this
      show ?thesis
      proof (cases "length c = length sb")
        case True
        with assms lg show ?thesis
          by (subst start_at [of st f]) (simp add: branch_defs apply_at_simps)
      next
        case False
        with ge have "length sb < length c" by simp
        with assms lg ge show ?thesis
          by (subst start_at [of st f]) (simp add: branch_defs apply_at_simps)
      qed
    next
      case False
      with assms ge show ?thesis
        by (subst start_at [of st f]) (simp add: branch_defs apply_at_simps)
    qed
  qed
qed

text \<open>Every turn takes exactly one of the nine branches.\<close>

lemma turn_cases [case_names skipped unknown_source svg string constructor_throws unsupported
    no_options encode_fails encoded]:
  obtains
    "\<not> candidate P f a"
  | "candidate P f a" "read_source (source a) = None"
  | sb isStr where "candidate P f a" "read_source (source a) = Some (sb, isStr)"
      "ext_of f = ''.svg''"
  | sb where "candidate P f a" "read_source (source a) = Some (sb, True)" "ext_of f \<noteq> ''.svg''"
  | sb msg where "candidate P f a" "read_source (source a) = Some (sb, False)"
      "ext_of f \<noteq> ''.svg''" "construct S sb = Some msg"
  | sb where "candidate P f a" "read_source (source a) = Some (sb, False)"
      "ext_of f \<noteq> ''.svg''" "construct S sb = None" "format_of_ext (ext_of f) = None"
  | sb fmt where "candidate P f a" "read_source (source a) = Some (sb, False)"
      "ext_of f \<noteq> ''.svg''" "construct S sb = None" "format_of_ext (ext_of f) = Some fmt"
      "\<not> has_keys (formatSpecificOptions (options P) fmt)"
  | sb fmt kvs msg where "candidate P f a" "read_source (source a) = Some (sb, False)"
      "ext_of f \<noteq> ''.svg''" "construct S sb = None" "format_of_ext (ext_of f) = Some fmt"
      "formatSpecificOptions (options P) fmt = Some kvs" "kvs \<noteq> []"
      "toBuffer S fmt kvs sb = Inl msg"
  | sb fmt kvs c where "candidate P f a" "read_source (source a) = Some (sb, False)"
      "ext_of f \<noteq> ''.svg''" "construct S sb = None" "format_of_ext (ext_of f) = Some fmt"
      "formatSpecificOptions (options P) fmt = Some kvs" "kvs \<noteq> []"
      "toBuffer S fmt kvs sb = Inr c"
proof (cases "candidate P f a")
  case False
  then show ?thesis using that(1) by blast
next
  case True
  note cand = this
  show ?thesis
  proof (cases "read_source (source a)")
    case None
    with cand show ?thesis using that(2) by blast
  next
    case (Some r)
    obtain sb isStr where r: "read_source (source a) = Some (sb, isStr)"
      using Some by (cases r) simp
    show ?thesis
    proof (cases "ext_of f = ''.svg''")
      case True
      with cand r show ?thesis using that(3) by blast
    next
      case False
      note nsvg = this
      show ?thesis
      proof (cases isStr)
        case True
        with r have "read_source (source a) = Some (sb, True)" by simp
        with cand nsvg show ?thesis using that(4) by blast
      next
        case False
        with r have rb: "read_source (source a) = Some (sb, False)" by simp
        show ?thesis
        proof (cases "construct S sb")
          case (Some msg)
          with cand rb nsvg show ?thesis using that(5) by blast
        next
          case None
          note ok = this
          show ?thesis
          proof (cases "format_of_ext (ext_of f)")
            case None
            with cand rb nsvg ok show ?thesis using that(6) by blast
          next
            case (Some fmt)
            note fm = this
            show ?thesis
            proof (cases "has_keys (formatSpecificOptions (options P) fmt)")
              case False
              with cand rb nsvg ok fm show ?thesis using that(7) by blast
            next
              case True
              then obtain kvs where kv: "formatSpecificOptions (options P) fmt = Some kvs"
                  "kvs \<noteq> []"
                by (auto simp: has_keys_def split: option.splits)
              show ?thesis
              proof (cases "toBuffer S fmt kvs sb")
                case (Inl msg)
                with cand rb nsvg ok fm kv show ?thesis using that(8) by blast
              next
                case (Inr c)
                with cand rb nsvg ok fm kv show ?thesis using that(9) by blast
              qed
            qed
          qed
        qed
      qed
    qed
  qed
qed

lemma sharp_call_own_file:
  assumes "e \<in> set (emitted S P g x)" "sharp_call_on f e"
  shows "g = f"
proof (cases rule: turn_cases [where P = P and f = g and a = x and S = S])
  case skipped
  from turn_skipped [OF skipped] have "emitted S P g x = []" by simp
  with assms show ?thesis by simp
next
  case unknown_source
  from turn_unknown_source [OF unknown_source]
  have "emitted S P g x = [WarnUnknownSource g]" by simp
  with assms show ?thesis by auto
next
  case (svg sb isStr)
  from turn_svg [OF svg] have "set (emitted S P g x) \<subseteq> {InfoSkipSvg g}" by auto
  with assms show ?thesis by auto
next
  case (string sb)
  from turn_string [OF string] have "emitted S P g x = [WarnStringSource g]" by simp
  with assms show ?thesis by auto
next
  case (constructor_throws sb msg)
  from turn_constructor_throws [OF constructor_throws]
  have "emitted S P g x = [SharpNew g, ErrorFailed g msg]" by simp
  with assms show ?thesis by auto
next
  case (unsupported sb)
  from turn_unsupported [OF unsupported]
  have "set (emitted S P g x) \<subseteq> {SharpNew g, InfoUnsupported g}" by auto
  with assms show ?thesis by auto
next
  case (no_options sb fmt)
  from turn_no_options [OF no_options] have "emitted S P g x = [SharpNew g]" by simp
  with assms show ?thesis by auto
next
  case (encode_fails sb fmt kvs msg)
  from turn_encode_fails [OF encode_fails]
  have "emitted S P g x = [SharpNew g, Encode fmt g kvs, ErrorFailed g msg]" by simp
  with assms show ?thesis by auto
next
  case (encoded sb fmt kvs c)
  from turn_encoded [OF encoded]
  have "set (emitted S P g x) \<subseteq>
      {SharpNew g, Encode fmt g kvs, InfoNotSmaller g (length c) (length sb),
       InfoNoChange g (length sb)}"
    by auto
  with assms show ?thesis by auto
qed

subsection \<open>The first batch of a new plugin\<close>

lemma bundle_seq_eq:
  "bundle_seq S P entries = map (\<lambda>(f, a). (f, result S P f a)) entries"
  by (simp add: bundle_seq_def generateBundle_decompose)

lemma map_of_bundle_seq:
  assumes "distinct (map fst entries)" "(f, a) \<in> set entries"
  shows "map_of (bundle_seq S P entries) f = Some (result S P f a)"
proof -
  have "(f, result S P f a) \<in> set (bundle_seq S P entries)"
    using assms(2) by (force simp: bundle_seq_eq)
  moreover have "map fst (bundle_seq S P entries) = map fst entries"
    by (simp add: bundle_seq_eq case_prod_unfold comp_def)
  ultimately show ?thesis using assms(1) by (simp add: map_of_eq_Some_iff)
qed

lemma map_of_ledger_seq:
  assumes "distinct (map fst entries)" "(f, a) \<in> set entries"
  shows "map_of (ledger_seq S P entries) f = written S P f a"
  using fold_apply_at_ledger [OF assms, of "written S P" "emitted S P" initial]
  by (simp add: ledger_seq_def generateBundle_decompose initial_def split: option.splits)

lemma trace_seq_eq:
  "trace_seq S P entries = concat (map (\<lambda>(f, a). emitted S P f a) entries)"
  by (simp add: trace_seq_def generateBundle_decompose fold_apply_at_effects initial_def)

lemma in_trace_seq:
  "e \<in> set (trace_seq S P entries) \<longleftrightarrow> (\<exists>(g, x) \<in> set entries. e \<in> set (emitted S P g x))"
  by (auto simp: trace_seq_eq)

lemma unique_entry:
  assumes "distinct (map fst entries)" "(f, a) \<in> set entries" "(f, x) \<in> set entries"
  shows "x = a"
  using assms by (meson eq_key_imp_eq_value)

lemma sharp_calls_seq:
  assumes "distinct (map fst entries)" "(f, a) \<in> set entries"
    and "e \<in> set (trace_seq S P entries)" "sharp_call_on f e"
  shows "e \<in> set (emitted S P f a)"
proof -
  obtain g x where gx: "(g, x) \<in> set entries" "e \<in> set (emitted S P g x)"
    using assms(3) by (auto simp: in_trace_seq)
  with assms(4) have "g = f" by (simp add: sharp_call_own_file)
  with gx assms(1,2) have "x = a" by (simp add: unique_entry)
  with gx \<open>g = f\<close> show ?thesis by simp
qed

lemma no_sharp_calls_seq:
  assumes "distinct (map fst entries)" "(f, a) \<in> set entries"
    and "filter (sharp_call_on f) (emitted S P f a) = []"
  shows "filter (sharp_call_on f) (trace_seq S P entries) = []"
  using assms sharp_calls_seq [OF assms(1,2)] by (fastforce simp: filter_empty_conv)

lemma emitted_in_trace:
  assumes "(f, a) \<in> set entries" "e \<in> set (emitted S P f a)"
  shows "e \<in> set (trace_seq S P entries)"
  using assms by (auto simp: in_trace_seq)

lemma read_source_Text: "source a = Text s \<Longrightarrow> read_source (source a) = Some (Buffer_from_utf8 s, True)"
  by (simp add: read_source_def)

lemma read_source_Bytes: "source a = Bytes b \<Longrightarrow> read_source (source a) = Some (b, False)"
  by (simp add: read_source_def)

subsection \<open>Evaluating the model on concrete inputs\<close>

lemmas eval_path = ext_of_def extname_def last_component_def toLowerCase_def lower_char_def
  endsWith_def default_include_def webp_pattern_def format_of_ext_def

lemmas eval_plugin = candidate_def viteImageCompress_def mergeOptions_def defaultOptions_def
  defaultSharpOptions_def spread_sharp_def or_empty_def no_options_def no_sharp_options_def
  createFilter_def formatSpecificOptions_def format_property_def has_keys_def truthy_def

lemmas eval_utf8 = Buffer_from_utf8_def utf8_bytes_def lone_unit_def is_high_surrogate_def
  is_low_surrogate_def read_source_def

subsection \<open>What every turn guarantees\<close>

lemma read_source_False: "read_source src = Some (sb, False) \<Longrightarrow> src = Bytes sb"
  by (auto simp: read_source_def split: source.splits)

lemma read_source_None: "read_source src = None \<longleftrightarrow> src = Neither"
  by (auto simp: read_source_def split: source.splits)

lemma format_not_svg: "format_of_ext e = Some fmt \<Longrightarrow> e \<noteq> ''.svg''"
  by (auto simp: format_of_ext_def)

lemma written_iff: "written S P f a \<noteq> None \<longleftrightarrow> candidate P f a \<and> source a \<noteq> Neither"
proof (cases rule: turn_cases [where P = P and f = f and a = a and S = S])
  case skipped
  with turn_skipped [OF skipped, of S] show ?thesis by simp
next
  case unknown_source
  with turn_unknown_source [OF unknown_source, of S] show ?thesis
    by (simp add: read_source_None)
next
  case (svg sb isStr)
  with turn_svg [OF svg, of S] show ?thesis
    by (metis option.distinct(1) read_source_None)
next
  case (string sb)
  with turn_string [OF string, of S] show ?thesis
    by (metis option.distinct(1) read_source_None)
next
  case (constructor_throws sb msg)
  with turn_constructor_throws [OF constructor_throws] show ?thesis
    by (metis option.distinct(1) read_source_None)
next
  case (unsupported sb)
  with turn_unsupported [OF unsupported] show ?thesis
    by (metis option.distinct(1) read_source_None)
next
  case (no_options sb fmt)
  with turn_no_options [OF no_options] show ?thesis
    by (metis option.distinct(1) read_source_None)
next
  case (encode_fails sb fmt kvs msg)
  with turn_encode_fails [OF encode_fails] show ?thesis
    by (metis option.distinct(1) read_source_None)
next
  case (encoded sb fmt kvs c)
  with turn_encoded [OF encoded] show ?thesis
    by (metis option.distinct(1) read_source_None)
qed

lemma written_le:
  assumes "written S P f a = Some sz"
  shows "compressedSize sz \<le> originalSize sz \<and>
         (compressedSize sz < originalSize sz \<longleftrightarrow> source (result S P f a) \<noteq> source a)"
proof (cases rule: turn_cases [where P = P and f = f and a = a and S = S])
  case skipped
  with turn_skipped [OF skipped, of S] assms show ?thesis by simp
next
  case unknown_source
  with turn_unknown_source [OF unknown_source, of S] assms show ?thesis by simp
next
  case (svg sb isStr)
  with turn_svg [OF svg, of S] assms show ?thesis by auto
next
  case (string sb)
  with turn_string [OF string, of S] assms show ?thesis by auto
next
  case (constructor_throws sb msg)
  with turn_constructor_throws [OF constructor_throws] assms show ?thesis by auto
next
  case (unsupported sb)
  with turn_unsupported [OF unsupported] assms show ?thesis by auto
next
  case (no_options sb fmt)
  with turn_no_options [OF no_options] assms show ?thesis by auto
next
  case (encode_fails sb fmt kvs msg)
  with turn_encode_fails [OF encode_fails] assms show ?thesis by auto
next
  case (encoded sb fmt kvs c)
  from encoded(2) have src: "source a = Bytes sb" by (rule read_source_False)
  from turn_encoded [OF encoded]
  have r: "result S P f a = (if length c < length sb then a\<lparr>source := Bytes c\<rparr> else a)"
    and w: "written S P f a = Some \<lparr>originalSize = length sb,
         compressedSize = (if length c < length sb then length c else length sb)\<rparr>"
    by simp_all
  show ?thesis
  proof (cases "length c < length sb")
    case True
    with r w src assms show ?thesis by auto
  next
    case False
    with r w src assms show ?thesis by auto
  qed
qed

lemma result_mutation:
  "type (result S P f a) = type a \<and>
   (source (result S P f a) = source a \<or>
    (\<exists>sb fmt kvs c. source a = Bytes sb \<and> toBuffer S fmt kvs sb = Inr c \<and>
       length c < length sb \<and> source (result S P f a) = Bytes c))"
proof (cases rule: turn_cases [where P = P and f = f and a = a and S = S])
  case skipped
  with turn_skipped [OF skipped, of S] show ?thesis by simp
next
  case unknown_source
  with turn_unknown_source [OF unknown_source, of S] show ?thesis by simp
next
  case (svg sb isStr)
  with turn_svg [OF svg, of S] show ?thesis by simp
next
  case (string sb)
  with turn_string [OF string, of S] show ?thesis by simp
next
  case (constructor_throws sb msg)
  with turn_constructor_throws [OF constructor_throws] show ?thesis by simp
next
  case (unsupported sb)
  with turn_unsupported [OF unsupported] show ?thesis by simp
next
  case (no_options sb fmt)
  with turn_no_options [OF no_options] show ?thesis by simp
next
  case (encode_fails sb fmt kvs msg)
  with turn_encode_fails [OF encode_fails] show ?thesis by simp
next
  case (encoded sb fmt kvs c)
  from encoded(2) have src: "source a = Bytes sb" by (rule read_source_False)
  from turn_encoded [OF encoded]
  have r: "result S P f a = (if length c < length sb then a\<lparr>source := Bytes c\<rparr> else a)"
    by simp
  show ?thesis
  proof (cases "length c < length sb")
    case True
    with r src encoded(8) show ?thesis by auto
  next
    case False
    with r show ?thesis by simp
  qed
qed


lemma map_fst_bundle_seq: "map fst (bundle_seq S P entries) = map fst entries"
  by (simp add: bundle_seq_eq case_prod_unfold comp_def)

lemma ledger_seq_keys:
  assumes "distinct (map fst entries)"
  shows "map fst (ledger_seq S P entries) =
         map fst (filter (\<lambda>(f, a). candidate P f a \<and> source a \<noteq> Neither) entries)"
proof -
  have "map fst (ledger_seq S P entries) =
        map fst (filter (\<lambda>(f, a). written S P f a \<noteq> None) entries)"
    using fold_apply_at_keys [OF assms, of initial "written S P" "emitted S P"]
    by (simp add: ledger_seq_def generateBundle_decompose initial_def)
  moreover have "(\<lambda>(f, a). written S P f a \<noteq> None) =
                 (\<lambda>(f, a). candidate P f a \<and> source a \<noteq> Neither)"
    by (intro ext) (simp only: written_iff split_beta)
  ultimately show ?thesis by simp
qed




subsection \<open>The ledger never records a growth\<close>

lemma set_update_subset: "set (AList.update k v al) \<subseteq> insert (k, v) (set al)"
  by (induction al) auto

lemma fold_apply_at_invariant:
  assumes "\<forall>(f, sz) \<in> set (processedFiles st). Q sz"
    and "\<forall>(f, a) \<in> set entries. \<forall>sz. w f a = Some sz \<longrightarrow> Q sz"
  shows "\<forall>(f, sz) \<in> set (processedFiles (fold (\<lambda>(f, a). apply_at f (w f a) (es f a)) entries st)). Q sz"
  using assms
proof (induction entries arbitrary: st)
  case Nil
  then show ?case by simp
next
  case (Cons x entries)
  obtain f a where x: "x = (f, a)" by (cases x)
  have "\<forall>(g, sz) \<in> set (processedFiles (apply_at f (w f a) (es f a) st)). Q sz"
  proof (cases "w f a")
    case None
    with Cons.prems(1) show ?thesis by (simp add: apply_at_sel)
  next
    case (Some sz)
    with Cons.prems(2) x have "Q sz" by simp
    with Some Cons.prems(1) set_update_subset [of f sz "processedFiles st"]
    show ?thesis by (auto simp: apply_at_sel)
  qed
  moreover have "\<forall>(f, a) \<in> set entries. \<forall>sz. w f a = Some sz \<longrightarrow> Q sz"
    using Cons.prems(2) by simp
  ultimately have "\<forall>(f, sz) \<in> set (processedFiles
      (fold (\<lambda>(f, a). apply_at f (w f a) (es f a)) entries (apply_at f (w f a) (es f a) st))). Q sz"
    by (rule Cons.IH)
  with x show ?case by simp
qed

lemma row_status_error: "row_status f sz = ErrorOrNotCompressed \<Longrightarrow> originalSize sz < compressedSize sz"
  by (auto simp: row_status_def Let_def split: if_splits)

lemma fst_generateBundle: "fst (generateBundle S P entries st) = bundle_seq S P entries"
  by (simp add: bundle_seq_def generateBundle_decompose)

lemma map_of_ledger_from:
  assumes "distinct (map fst entries)" "(f, a) \<in> set entries"
    and "candidate P f a" "source a \<noteq> Neither"
  shows "map_of (processedFiles (snd (generateBundle S P entries st))) f = written S P f a"
proof -
  from assms(3,4) obtain sz where "written S P f a = Some sz"
    using written_iff [of S P f a] by auto
  with fold_apply_at_ledger [OF assms(1,2), of "written S P" "emitted S P" st]
  show ?thesis by (simp add: generateBundle_decompose)
qed

subsection \<open>The length of the UTF-8 encoding\<close>

lemma length_utf8_bytes:
  "length (utf8_bytes cp) =
     (if cp < 0x80 then 1 else if cp < 0x800 then 2 else if cp < 0x10000 then 3 else 4)"
  by (simp add: utf8_bytes_def)

lemma length_lone_unit:
  "1 \<le> length (utf8_bytes (lone_unit u)) \<and>
   (length (utf8_bytes (lone_unit u)) = 1 \<longleftrightarrow> unat u < 0x80)"
  by (auto simp: length_utf8_bytes lone_unit_def is_high_surrogate_def is_low_surrogate_def)

lemma length_Buffer_from_utf8:
  "length s \<le> length (Buffer_from_utf8 s) \<and>
   (length (Buffer_from_utf8 s) = length s \<longleftrightarrow> (\<forall>u \<in> set s. unat u < 0x80))"
proof (induction s rule: code_points.induct)
  case 1
  then show ?case by (simp add: Buffer_from_utf8_def)
next
  case (2 u)
  with length_lone_unit [of u] show ?case by (simp add: Buffer_from_utf8_def)
next
  case (3 u v rest)
  show ?case
  proof (cases "is_high_surrogate u \<and> is_low_surrogate v")
    case True
    then have "Buffer_from_utf8 (u # v # rest) =
        utf8_bytes (0x10000 + (unat u - 0xD800) * 1024 + (unat v - 0xDC00)) @ Buffer_from_utf8 rest"
      by (simp add: Buffer_from_utf8_def)
    then have len: "length (Buffer_from_utf8 (u # v # rest)) = 4 + length (Buffer_from_utf8 rest)"
      by (simp add: length_utf8_bytes)
    from True have "\<not> unat u < 0x80" by (simp add: is_high_surrogate_def)
    with len 3(1) [OF True] show ?thesis by auto
  next
    case False
    then have "Buffer_from_utf8 (u # v # rest) =
        utf8_bytes (lone_unit u) @ Buffer_from_utf8 (v # rest)"
      by (auto simp: Buffer_from_utf8_def)
    then have len: "length (Buffer_from_utf8 (u # v # rest)) =
        length (utf8_bytes (lone_unit u)) + length (Buffer_from_utf8 (v # rest))"
      by simp
    from 3(2) [OF False] length_lone_unit [of u] len show ?thesis by auto
  qed
qed

lemma written_Text:
  assumes "candidate P f a" "source a = Text s"
  shows "written S P f a =
    Some \<lparr>originalSize = length (Buffer_from_utf8 s), compressedSize = length (Buffer_from_utf8 s)\<rparr>"
proof (cases "ext_of f = ''.svg''")
  case True
  from turn_svg [OF assms(1) read_source_Text [OF assms(2)] True, of S] show ?thesis by simp
next
  case False
  from turn_string [OF assms(1) read_source_Text [OF assms(2)] False, of S] show ?thesis by simp
qed

lemma written_Bytes:
  assumes "candidate P f a" "source a = Bytes b"
  shows "\<exists>sz. written S P f a = Some sz \<and> originalSize sz = length b \<and>
           (compressedSize sz = length b \<or>
            (\<exists>fmt kvs c. toBuffer S fmt kvs b = Inr c \<and> compressedSize sz = length c))"
proof (cases rule: turn_cases [where P = P and f = f and a = a and S = S])
  case skipped
  with assms show ?thesis by simp
next
  case unknown_source
  with assms show ?thesis by (simp add: read_source_def)
next
  case (svg sb isStr)
  with assms have "sb = b" by (simp add: read_source_def)
  with turn_svg [OF svg, of S] show ?thesis by simp
next
  case (string sb)
  with assms show ?thesis by (simp add: read_source_def)
next
  case (constructor_throws sb msg)
  with assms have "sb = b" by (simp add: read_source_def)
  with turn_constructor_throws [OF constructor_throws] show ?thesis by simp
next
  case (unsupported sb)
  with assms have "sb = b" by (simp add: read_source_def)
  with turn_unsupported [OF unsupported] show ?thesis by simp
next
  case (no_options sb fmt)
  with assms have "sb = b" by (simp add: read_source_def)
  with turn_no_options [OF no_options] show ?thesis by simp
next
  case (encode_fails sb fmt kvs msg)
  with assms have "sb = b" by (simp add: read_source_def)
  with turn_encode_fails [OF encode_fails] show ?thesis by simp
next
  case (encoded sb fmt kvs c)
  with assms have sb: "sb = b" by (simp add: read_source_def)
  from turn_encoded [OF encoded]
  have w: "written S P f a = Some \<lparr>originalSize = length sb,
         compressedSize = (if length c < length sb then length c else length sb)\<rparr>"
    by simp
  show ?thesis
  proof (cases "length c < length sb")
    case True
    with w sb encoded(8) show ?thesis by auto
  next
    case False
    with w sb show ?thesis by simp
  qed
qed

section \<open>The order in which the tasks settle\<close>

lemma gate_None:
  "gate opts f a sb n fso None (apply_at f w0 es0 st) =
     (a, apply_at f (Some \<lparr>originalSize = n, compressedSize = n\<rparr>)
           (es0 @ (if truthy (log opts) \<and> has_keys fso then [InfoNoChange f n] else [])) st)"
  by (cases "truthy (log opts) \<and> has_keys fso") (auto simp: gate_def apply_at_simps)

lemma beginI:
  "(\<And>st. F st = ((a, apply_at f w es st), po)) \<Longrightarrow>
   \<exists>w es po. \<forall>st. F st = ((a, apply_at f w es st), po)"
  by blast

lemma task_begin_local:
  "\<exists>w es po. \<forall>st. task_begin S opts f ext a sb n (apply_at f w0 es0 st) =
      ((a, apply_at f w es st), po)"
proof (cases "construct S sb")
  case (Some msg)
  then show ?thesis
    by (intro beginI) (simp add: task_begin_def apply_at_simps split del: if_split)
next
  case None
  note ctor = this
  show ?thesis
  proof (cases "format_of_ext ext")
    case None
    with ctor show ?thesis
      by (intro beginI) (simp add: task_begin_def apply_at_simps split del: if_split)
  next
    case (Some fmt)
    note fm = this
    show ?thesis
    proof (cases "formatSpecificOptions opts fmt")
      case None
      with ctor fm show ?thesis
        by (intro beginI) (simp add: task_begin_def apply_at_simps gate_None split del: if_split)
    next
      case (Some kvs)
      note fs = this
      show ?thesis
      proof (cases "length kvs > 0")
        case False
        with ctor fm fs show ?thesis
          by (intro beginI) (simp add: task_begin_def apply_at_simps gate_None split del: if_split)
      next
        case True
        with ctor fm fs show ?thesis
          by (intro beginI) (simp add: task_begin_def apply_at_simps split del: if_split)
      qed
    qed
  qed
qed

lemma visit_begin_local:
  "\<exists>w es po. \<forall>st. visit_begin S P f a st = ((a, apply_at f w es st), po)"
proof (cases "type a \<noteq> asset \<or> \<not> accepts P f")
  case True
  then have "\<forall>st. visit_begin S P f a st = ((a, apply_at f None [] st), None)"
    by (simp add: visit_begin_def apply_at_id)
  then show ?thesis by blast
next
  case False
  note cand = this
  show ?thesis
  proof (cases "read_source (source a)")
    case None
    with cand have "\<forall>st. visit_begin S P f a st =
        ((a, apply_at f None [WarnUnknownSource f] st), None)"
      by (simp add: visit_begin_def emit_def apply_at_def)
    then show ?thesis by blast
  next
    case (Some r)
    obtain sb isStr where r: "r = (sb, isStr)" by (cases r)
    show ?thesis
    proof (cases "toLowerCase (extname f) = ''.svg''")
      case True
      have "visit_begin S P f a st =
          ((a, apply_at f (Some \<lparr>originalSize = length sb, compressedSize = length sb\<rparr>)
                 (if truthy (log (options P)) then [InfoSkipSvg f] else []) st), None)" for st
        using cand Some r True
        by (subst start_at [of st f])
           (simp add: visit_begin_def apply_at_simps Let_def split del: if_split)
      then show ?thesis by blast
    next
      case False
      note nsvg = this
      show ?thesis
      proof (cases isStr)
        case True
        have "visit_begin S P f a st =
          ((a, apply_at f (Some \<lparr>originalSize = length sb, compressedSize = length sb\<rparr>)
                 [WarnStringSource f] st), None)" for st
          using cand Some r nsvg True
          by (subst start_at [of st f])
             (simp add: visit_begin_def apply_at_simps Let_def split del: if_split)
        then show ?thesis by blast
      next
        case False
        obtain w es po where
          "\<And>st. task_begin S (options P) f (toLowerCase (extname f)) a sb (length sb)
                   (apply_at f None [] st) = ((a, apply_at f w es st), po)"
          using task_begin_local [of S "options P" f "toLowerCase (extname f)" a sb "length sb" None "[]"]
          by blast
        then have "\<forall>st. visit_begin S P f a st = ((a, apply_at f w es st), po)"
          using cand Some r nsvg False
          by (simp add: visit_begin_def Let_def apply_at_id)
        then show ?thesis by blast
      qed
    qed
  qed
qed

lemma visit_begin_decompose:
  "visit_begin S P f a st =
     ((a, apply_at f (begun_written S P f a) (begun_emitted S P f a) st), begun_pending S P f a)"
proof -
  obtain w es po where *: "\<And>st. visit_begin S P f a st = ((a, apply_at f w es st), po)"
    using visit_begin_local by blast
  have "begun_pending S P f a = po" "begun_emitted S P f a = es" "begun_written S P f a = w"
    by (cases w; simp add: begun_pending_def begun_emitted_def begun_written_def *
          apply_at_def initial_def)+
  with * show ?thesis by simp
qed

lemma task_resume_local:
  "\<exists>a' sz es. \<forall>st. task_resume S opts p st = (a', apply_at (file_of p) (Some sz) es st)"
proof (cases p)
  case (Pending f a sb n fmt kvs)
  show ?thesis
  proof (cases "toBuffer S fmt kvs sb")
    case (Inl msg)
    have "task_resume S opts p st =
        (a, apply_at (file_of p) (Some \<lparr>originalSize = n, compressedSize = n\<rparr>)
              [ErrorFailed f msg] st)" for st
      using Pending Inl by (subst start_at [of st f]) (simp add: apply_at_simps)
    then show ?thesis by blast
  next
    case (Inr b)
    show ?thesis
    proof (cases "length b < n")
      case True
      have "task_resume S opts p st =
        (a\<lparr>source := Bytes b\<rparr>,
         apply_at (file_of p) (Some \<lparr>originalSize = n, compressedSize = length b\<rparr>) [] st)" for st
        using Pending Inr True
        by (subst start_at [of st f]) (simp add: gate_def apply_at_simps)
      then show ?thesis by blast
    next
      case False
      have "task_resume S opts p st =
        (a,
         apply_at (file_of p) (Some \<lparr>originalSize = n, compressedSize = n\<rparr>)
           (if truthy (log opts) \<and> n < length b then [InfoNotSmaller f (length b) n]
            else if truthy (log opts) \<and> length b = n \<and> has_keys (Some kvs)
            then [InfoNoChange f n] else []) st)" for st
        using Pending Inr False
        by (subst start_at [of st f])
           (simp add: gate_def apply_at_simps split del: if_split cong: if_cong)
      then show ?thesis by blast
    qed
  qed
qed

lemma task_resume_decompose:
  "task_resume S (options P) p st =
     (resumed_asset S P p,
      apply_at (file_of p) (resumed_written S P p) (resumed_emitted S P p) st)"
proof -
  obtain a' sz es where
    *: "\<And>st. task_resume S (options P) p st = (a', apply_at (file_of p) (Some sz) es st)"
    using task_resume_local by blast
  have "resumed_asset S P p = a'" "resumed_emitted S P p = es" "resumed_written S P p = Some sz"
    by (simp_all add: resumed_asset_def resumed_emitted_def resumed_written_def *
          apply_at_def initial_def)
  with * show ?thesis by simp
qed

lemma resumed_written_Some: "\<exists>sz. resumed_written S P p = Some sz"
proof -
  obtain a' sz es where
    *: "\<And>st. task_resume S (options P) p st = (a', apply_at (file_of p) (Some sz) es st)"
    using task_resume_local by blast
  then show ?thesis by (simp add: resumed_written_def * apply_at_def initial_def)
qed


lemma visit_split:
  "visit S P f a st =
     (case visit_begin S P f a st of
        (r, None) \<Rightarrow> r
      | ((a', st'), Some p) \<Rightarrow> task_resume S (options P) p st')"
  by (simp add: visit_def visit_begin_def with_buffer_def task_def task_try_def task_begin_def
        Let_def split: option.splits sum.splits)

lemma begun_pending_Some:
  assumes "begun_pending S P f a = Some p"
  shows "file_of p = f \<and> begun_written S P f a = None"
  using assms
  unfolding begun_pending_def begun_written_def visit_begin_def task_begin_def
  by (auto simp: Let_def emit_def initial_def split: option.splits if_splits)

lemma turn_from_parts:
  "result S P f a =
     (case begun_pending S P f a of None \<Rightarrow> a | Some p \<Rightarrow> resumed_asset S P p) \<and>
   written S P f a =
     (case begun_pending S P f a of
        None \<Rightarrow> begun_written S P f a | Some p \<Rightarrow> resumed_written S P p) \<and>
   emitted S P f a =
     begun_emitted S P f a @
     (case begun_pending S P f a of None \<Rightarrow> [] | Some p \<Rightarrow> resumed_emitted S P p)"
proof (cases "begun_pending S P f a")
  case None
  then have "visit S P f a initial =
      (a, apply_at f (begun_written S P f a) (begun_emitted S P f a) initial)"
    by (simp add: visit_split visit_begin_decompose)
  with None show ?thesis
    by (cases "begun_written S P f a")
       (simp_all add: result_def written_def emitted_def apply_at_def initial_def)
next
  case (Some p)
  from begun_pending_Some [OF Some] have f: "file_of p = f" and w: "begun_written S P f a = None"
    by simp_all
  obtain sz where sz: "resumed_written S P p = Some sz"
    using resumed_written_Some by blast
  from Some have "visit S P f a initial =
      (resumed_asset S P p,
       apply_at f (resumed_written S P p) (resumed_emitted S P p)
         (apply_at f None (begun_emitted S P f a) initial))"
    by (simp add: visit_split visit_begin_decompose task_resume_decompose f w)
  with Some sz show ?thesis
    by (simp add: result_def written_def emitted_def apply_at_def initial_def)
qed


lemma loop_begin_decompose:
  "loop_begin S P entries st =
     (entries,
      fold (\<lambda>(f, a). apply_at f (begun_written S P f a) (begun_emitted S P f a)) entries st,
      List.map_filter (\<lambda>(f, a). begun_pending S P f a) entries)"
  by (induction entries arbitrary: st)
     (auto simp: visit_begin_decompose map_filter_simps split: option.splits)

lemma pending_tasks_eq:
  "pending_tasks S P entries = List.map_filter (\<lambda>(f, a). begun_pending S P f a) entries"
  by (simp add: pending_tasks_def loop_begin_decompose)

lemma in_map_filter: "y \<in> set (List.map_filter h xs) \<longleftrightarrow> (\<exists>x \<in> set xs. h x = Some y)"
  by (induction xs) (auto split: option.splits)

lemma in_pending_tasks:
  "p \<in> set (pending_tasks S P entries) \<longleftrightarrow>
     (\<exists>(f, a) \<in> set entries. begun_pending S P f a = Some p)"
  by (force simp: pending_tasks_eq in_map_filter)

lemma pending_file_in_entries:
  assumes "p \<in> set (pending_tasks S P entries)"
  shows "\<exists>a. (file_of p, a) \<in> set entries \<and> begun_pending S P (file_of p) a = Some p"
proof -
  from assms obtain f a where fa: "(f, a) \<in> set entries" "begun_pending S P f a = Some p"
    by (auto simp: in_pending_tasks)
  with begun_pending_Some [OF fa(2)] show ?thesis by auto
qed

lemma distinct_pending_files:
  assumes "distinct (map fst entries)"
  shows "distinct (map file_of (pending_tasks S P entries))"
  using assms
proof (induction entries)
  case Nil
  then show ?case by (simp add: pending_tasks_eq)
next
  case (Cons x entries)
  obtain f a where x: "x = (f, a)" by (cases x)
  from Cons have IH: "distinct (map file_of (pending_tasks S P entries))" by simp
  show ?case
  proof (cases "begun_pending S P f a")
    case None
    with x IH show ?thesis by (simp add: pending_tasks_eq)
  next
    case (Some p)
    have "file_of p \<notin> file_of ` set (pending_tasks S P entries)"
    proof
      assume "file_of p \<in> file_of ` set (pending_tasks S P entries)"
      then obtain q where q: "q \<in> set (pending_tasks S P entries)" "file_of q = file_of p"
        by auto
      from pending_file_in_entries [OF q(1)] q(2) begun_pending_Some [OF Some]
      have "f \<in> fst ` set entries" by force
      with Cons.prems x show False by simp
    qed
    with Some x IH show ?thesis by (simp add: pending_tasks_eq)
  qed
qed

lemma fold_settle:
  "fold (settle S P) sched (b, st) =
     (map (\<lambda>(g, x). (g, fold (\<lambda>p y. if g = file_of p then resumed_asset S P p else y) sched x)) b,
      fold (\<lambda>p. apply_at (file_of p) (resumed_written S P p) (resumed_emitted S P p)) sched st)"
proof (induction sched arbitrary: b st)
  case Nil
  then show ?case by (simp add: case_prod_unfold)
next
  case (Cons p sched)
  have "settle S P p (b, st) =
      (map (\<lambda>(g, x). if g = file_of p then (g, resumed_asset S P p) else (g, x)) b,
       apply_at (file_of p) (resumed_written S P p) (resumed_emitted S P p) st)"
    by (simp add: settle_def task_resume_decompose)
  then show ?case
    by (simp add: Cons.IH case_prod_unfold comp_def if_distrib cong: if_cong)
qed

lemma fold_resumed_asset:
  assumes "distinct (map file_of sched)"
  shows "fold (\<lambda>p y. if g = file_of p then resumed_asset S P p else y) sched x =
         (case find (\<lambda>p. file_of p = g) sched of None \<Rightarrow> x | Some p \<Rightarrow> resumed_asset S P p)"
  using assms
proof (induction sched arbitrary: x)
  case Nil
  then show ?case by simp
next
  case (Cons p sched)
  show ?case
  proof (cases "file_of p = g")
    case True
    have "find (\<lambda>q. file_of q = g) sched = None"
      unfolding find_None_iff using Cons.prems True by (auto simp: image_iff)
    with True Cons show ?thesis by simp
  next
    case False
    with Cons show ?thesis by auto
  qed
qed


lemma generateBundle_scheduled_decompose:
  "generateBundle_scheduled S P sched entries st =
     (map (\<lambda>(g, x). (g, fold (\<lambda>p y. if g = file_of p then resumed_asset S P p else y) sched x))
        entries,
      fold (\<lambda>(f, p). apply_at f (resumed_written S P p) (resumed_emitted S P p))
        (map (\<lambda>p. (file_of p, p)) sched)
        (fold (\<lambda>(f, a). apply_at f (begun_written S P f a) (begun_emitted S P f a)) entries st))"
  by (simp add: generateBundle_scheduled_def loop_begin_decompose fold_settle fold_map comp_def)

lemma schedule_files:
  assumes "distinct (map fst entries)" "distinct sched"
    and "set sched = set (pending_tasks S P entries)"
  shows "distinct (map file_of sched)"
proof -
  have "inj_on file_of (set (pending_tasks S P entries))"
    using distinct_pending_files [OF assms(1), of S P] by (simp add: distinct_map)
  with assms(2,3) show ?thesis by (simp add: distinct_map)
qed

lemma schedule_find:
  assumes "distinct (map fst entries)" "distinct sched"
    and "set sched = set (pending_tasks S P entries)" and "(g, x) \<in> set entries"
  shows "find (\<lambda>p. file_of p = g) sched = begun_pending S P g x"
proof (cases "begun_pending S P g x")
  case None
  have "\<not> (\<exists>q. q \<in> set sched \<and> file_of q = g)"
  proof
    assume "\<exists>q. q \<in> set sched \<and> file_of q = g"
    then obtain q where q: "q \<in> set (pending_tasks S P entries)" "file_of q = g"
      using assms(3) by auto
    from pending_file_in_entries [OF q(1)] q(2)
    obtain a where a: "(g, a) \<in> set entries" "begun_pending S P g a = Some q" by auto
    from unique_entry [OF assms(1) assms(4) a(1)] a(2) None show False by simp
  qed
  with None show ?thesis by (simp add: find_None_iff)
next
  case (Some p)
  with assms(3,4) have p: "p \<in> set sched" by (force simp: in_pending_tasks)
  from begun_pending_Some [OF Some] have f: "file_of p = g" by simp
  from p f obtain q where q: "find (\<lambda>p. file_of p = g) sched = Some q"
    by (cases "find (\<lambda>p. file_of p = g) sched") (auto simp: find_None_iff)
  then have "q \<in> set sched" "file_of q = g"
    by (auto simp: find_Some_iff)
  moreover have "inj_on file_of (set sched)"
    using schedule_files [OF assms(1-3)] by (simp add: distinct_map)
  ultimately have "q = p" using p f by (auto dest: inj_onD)
  with q Some show ?thesis by simp
qed

text \<open>
  The order in which the pending tasks settle does not show in what the hook leaves: for
  every schedule of them, the bundle, the ledger as a map from file names to sizes, and
  the set of calls made are those of \<^const>\<open>generateBundle\<close>, where each task runs to
  its end as soon as it is started.
\<close>

lemma schedule_irrelevant:
  assumes "distinct (map fst entries)" "distinct sched"
    and "set sched = set (pending_tasks S P entries)"
  shows "fst (generateBundle_scheduled S P sched entries st) = fst (generateBundle S P entries st) \<and>
         map_of (processedFiles (snd (generateBundle_scheduled S P sched entries st))) =
           map_of (processedFiles (snd (generateBundle S P entries st))) \<and>
         set (effects (snd (generateBundle_scheduled S P sched entries st))) =
           set (effects (snd (generateBundle S P entries st)))"
proof -
  let ?begin = "\<lambda>(f, a). apply_at f (begun_written S P f a) (begun_emitted S P f a)"
  let ?st1 = "fold ?begin entries st"
  let ?pairs = "map (\<lambda>p. (file_of p, p)) sched"
  let ?resume = "\<lambda>(f, p). apply_at f (resumed_written S P p) (resumed_emitted S P p)"
  let ?sched = "fold ?resume ?pairs ?st1"
  let ?seq = "fold (\<lambda>(f, a). apply_at f (written S P f a) (emitted S P f a)) entries st"
  note files = schedule_files [OF assms]
  have dp: "distinct (map fst ?pairs)" using files by (simp add: comp_def)
  have assets: "fst (generateBundle_scheduled S P sched entries st) =
      fst (generateBundle S P entries st)"
  proof -
    have "fold (\<lambda>p y. if g = file_of p then resumed_asset S P p else y) sched x = result S P g x"
      if "(g, x) \<in> set entries" for g x
      using turn_from_parts [of S P g x]
      by (simp add: fold_resumed_asset [OF files] schedule_find [OF assms that])
    then show ?thesis
      by (auto simp: generateBundle_scheduled_decompose generateBundle_decompose)
  qed
  have ledger: "map_of (processedFiles ?sched) g = map_of (processedFiles ?seq) g" for g
  proof (cases "\<exists>a. (g, a) \<in> set entries")
    case False
    then have out: "g \<notin> fst ` set entries" by force
    have "g \<notin> fst ` set ?pairs"
    proof
      assume "g \<in> fst ` set ?pairs"
      then obtain q where "q \<in> set sched" "file_of q = g" by auto
      with assms(3) pending_file_in_entries [of q S P entries] False show False by auto
    qed
    then have "map_of (processedFiles ?sched) g = map_of (processedFiles ?st1) g"
      by (rule fold_apply_at_other)
    also have "\<dots> = map_of (processedFiles st) g"
      using out by (rule fold_apply_at_other)
    also have "\<dots> = map_of (processedFiles ?seq) g"
      using out by (rule fold_apply_at_other [symmetric])
    finally show ?thesis .
  next
    case True
    then obtain a where a: "(g, a) \<in> set entries" by blast
    have seq: "map_of (processedFiles ?seq) g =
        (case written S P g a of None \<Rightarrow> map_of (processedFiles st) g | Some sz \<Rightarrow> Some sz)"
      by (rule fold_apply_at_ledger [OF assms(1) a])
    have st1: "map_of (processedFiles ?st1) g =
        (case begun_written S P g a of None \<Rightarrow> map_of (processedFiles st) g | Some sz \<Rightarrow> Some sz)"
      by (rule fold_apply_at_ledger [OF assms(1) a])
    show ?thesis
    proof (cases "begun_pending S P g a")
      case None
      with schedule_find [OF assms a] have "g \<notin> fst ` set ?pairs"
        by (auto simp: find_None_iff)
      then have "map_of (processedFiles ?sched) g = map_of (processedFiles ?st1) g"
        by (rule fold_apply_at_other)
      with None seq st1 turn_from_parts [of S P g a] show ?thesis by simp
    next
      case (Some p)
      with a assms(3) have "p \<in> set sched" by (force simp: in_pending_tasks)
      moreover from begun_pending_Some [OF Some] have "file_of p = g" by simp
      ultimately have "(g, p) \<in> set ?pairs" by force
      from fold_apply_at_ledger [OF dp this, of "\<lambda>f p. resumed_written S P p"
          "\<lambda>f p. resumed_emitted S P p" ?st1]
      have "map_of (processedFiles ?sched) g =
          (case resumed_written S P p of None \<Rightarrow> map_of (processedFiles ?st1) g
           | Some sz \<Rightarrow> Some sz)" .
      with Some seq resumed_written_Some [of S P p] turn_from_parts [of S P g a]
      show ?thesis by auto
    qed
  qed
  have calls: "set (effects ?sched) = set (effects ?seq)"
  proof -
    have e1: "effects ?sched =
        effects ?st1 @ concat (map (\<lambda>(f, p). resumed_emitted S P p) ?pairs)"
      by (rule fold_apply_at_effects)
    have e2: "effects ?st1 =
        effects st @ concat (map (\<lambda>(f, a). begun_emitted S P f a) entries)"
      by (rule fold_apply_at_effects)
    have e3: "effects ?seq = effects st @ concat (map (\<lambda>(f, a). emitted S P f a) entries)"
      by (rule fold_apply_at_effects)
    have "set (effects ?sched) =
        set (effects st) \<union> (\<Union>(f, a) \<in> set entries. set (begun_emitted S P f a)) \<union>
        (\<Union>p \<in> set sched. set (resumed_emitted S P p))"
      unfolding e1 e2 by (simp add: case_prod_unfold comp_def Un_assoc)
    moreover have "set (effects ?seq) =
        set (effects st) \<union> (\<Union>(f, a) \<in> set entries. set (emitted S P f a))"
      unfolding e3 by (simp add: case_prod_unfold)
    moreover have "(\<Union>(f, a) \<in> set entries. set (emitted S P f a)) =
        (\<Union>(f, a) \<in> set entries. set (begun_emitted S P f a)) \<union>
        (\<Union>p \<in> set sched. set (resumed_emitted S P p))" (is "?l = ?r")
    proof (intro set_eqI iffI)
      fix e assume "e \<in> ?l"
      then obtain f a where fa: "(f, a) \<in> set entries" "e \<in> set (emitted S P f a)" by auto
      show "e \<in> ?r"
      proof (cases "begun_pending S P f a")
        case None
        with fa turn_from_parts [of S P f a] show ?thesis by force
      next
        case (Some p)
        with fa(1) assms(3) have "p \<in> set sched" by (force simp: in_pending_tasks)
        with Some fa turn_from_parts [of S P f a] show ?thesis by force
      qed
    next
      fix e assume "e \<in> ?r"
      then consider f a where "(f, a) \<in> set entries" "e \<in> set (begun_emitted S P f a)"
        | p where "p \<in> set sched" "e \<in> set (resumed_emitted S P p)"
        by auto
      then show "e \<in> ?l"
      proof cases
        case 1
        with turn_from_parts [of S P f a] show ?thesis by force
      next
        case 2
        with assms(3) obtain f a where fa: "(f, a) \<in> set entries" "begun_pending S P f a = Some p"
          by (auto simp: in_pending_tasks)
        with 2 turn_from_parts [of S P f a] show ?thesis by force
      qed
    qed
    ultimately show ?thesis by (simp only: Un_assoc)
  qed
  from assets ledger calls show ?thesis
    by (simp add: generateBundle_scheduled_decompose generateBundle_decompose fun_eq_iff)
qed


lemma fold_apply_at_distinct:
  assumes "distinct (map fst (processedFiles st))"
  shows "distinct (map fst (processedFiles (fold (\<lambda>(f, a). apply_at f (w f a) (es f a)) entries st)))"
  using assms
proof (induction entries arbitrary: st)
  case Nil
  then show ?case by simp
next
  case (Cons x entries)
  obtain f a where x: "x = (f, a)" by (cases x)
  have "distinct (map fst (processedFiles (apply_at f (w f a) (es f a) st)))"
    using Cons.prems by (cases "w f a") (simp_all add: apply_at_sel distinct_update)
  from Cons.IH [OF this] x show ?case by simp
qed

lemma length_by_keys:
  assumes "distinct (map fst xs)" "distinct (map fst ys)" "map_of xs = map_of ys"
  shows "length xs = length ys"
proof -
  have count: "length zs = card (dom (map_of zs))" if "distinct (map fst zs)"
    for zs :: "('k \<times> 'v) list"
  proof -
    have "length zs = length (map fst zs)" by simp
    also have "\<dots> = card (set (map fst zs))" using that by (simp only: distinct_card)
    also have "set (map fst zs) = dom (map_of zs)" by (simp add: dom_map_of_conv_image_fst)
    finally show ?thesis .
  qed
  from count [OF assms(1)] count [OF assms(2)] assms(3) show ?thesis by simp
qed

lemma scheduled_ledger_size:
  assumes "distinct (map fst entries)" "distinct sched"
    and "set sched = set (pending_tasks S P entries)"
    and "distinct (map fst (processedFiles st))"
  shows "distinct (map fst (processedFiles (snd (generateBundle_scheduled S P sched entries st)))) \<and>
         length (processedFiles (snd (generateBundle_scheduled S P sched entries st))) =
           length (processedFiles (snd (generateBundle S P entries st)))"
proof -
  let ?st1 = "fold (\<lambda>(f, a). apply_at f (begun_written S P f a) (begun_emitted S P f a)) entries st"
  have "distinct (map fst (processedFiles ?st1))"
    using assms(4) by (rule fold_apply_at_distinct)
  then have d1: "distinct (map fst (processedFiles (snd (generateBundle_scheduled S P sched entries st))))"
    unfolding generateBundle_scheduled_decompose snd_conv by (rule fold_apply_at_distinct)
  have d2: "distinct (map fst (processedFiles (snd (generateBundle S P entries st))))"
    unfolding generateBundle_decompose snd_conv using assms(4) by (rule fold_apply_at_distinct)
  from schedule_irrelevant [OF assms(1-3), of st]
  have "map_of (processedFiles (snd (generateBundle_scheduled S P sched entries st))) =
           map_of (processedFiles (snd (generateBundle S P entries st)))"
    by blast
  with d1 d2 show ?thesis by (intro conjI length_by_keys)
qed

text \<open>The order of their start is one schedule of the pending tasks.\<close>

lemma start_order_is_schedule:
  "distinct (map fst entries) \<Longrightarrow> distinct (pending_tasks S P entries)"
  using distinct_pending_files [of entries S P] by (simp add: distinct_map)

section \<open>What every schedule leaves\<close>

lemma bundle_after_seq:
  assumes "distinct (map fst entries)" "schedule S P entries sched"
  shows "bundle_after S P sched entries = bundle_seq S P entries"
  using schedule_irrelevant [of entries sched S P initial] assms
  by (simp add: schedule_def bundle_after_def bundle_seq_def)

lemma ledger_after_seq:
  assumes "distinct (map fst entries)" "schedule S P entries sched"
  shows "map_of (ledger_after S P sched entries) = map_of (ledger_seq S P entries)"
  using schedule_irrelevant [of entries sched S P initial] assms
  by (simp add: schedule_def ledger_after_def ledger_seq_def)

lemma trace_after_seq:
  assumes "distinct (map fst entries)" "schedule S P entries sched"
  shows "set (trace_after S P sched entries) = set (trace_seq S P entries)"
  using schedule_irrelevant [of entries sched S P initial] assms
  by (simp add: schedule_def trace_after_def trace_seq_def)

lemma ledger_after_distinct:
  assumes "distinct (map fst entries)" "schedule S P entries sched"
  shows "distinct (map fst (ledger_after S P sched entries)) \<and>
         length (ledger_after S P sched entries) = length (ledger_seq S P entries)"
  using scheduled_ledger_size [of entries sched S P initial] assms
  by (simp add: schedule_def ledger_after_def ledger_seq_def initial_def)

lemma map_of_bundle_after:
  assumes "distinct (map fst entries)" "schedule S P entries sched" "(f, a) \<in> set entries"
  shows "map_of (bundle_after S P sched entries) f = Some (result S P f a)"
  by (simp only: bundle_after_seq [OF assms(1,2)] map_of_bundle_seq [OF assms(1,3)])

lemma map_of_ledger_after:
  assumes "distinct (map fst entries)" "schedule S P entries sched" "(f, a) \<in> set entries"
  shows "map_of (ledger_after S P sched entries) f = written S P f a"
  by (simp only: ledger_after_seq [OF assms(1,2)] map_of_ledger_seq [OF assms(1,3)])

lemma emitted_in_trace_after:
  assumes "distinct (map fst entries)" "schedule S P entries sched" "(f, a) \<in> set entries"
    and "e \<in> set (emitted S P f a)"
  shows "e \<in> set (trace_after S P sched entries)"
  using emitted_in_trace [OF assms(3,4)] by (simp only: trace_after_seq [OF assms(1,2)])

lemma filter_empty_by_set: "set xs = set ys \<Longrightarrow> filter Q xs = [] \<longleftrightarrow> filter Q ys = []"
  by (simp add: filter_empty_conv)

lemma no_sharp_calls_after:
  assumes "distinct (map fst entries)" "schedule S P entries sched" "(f, a) \<in> set entries"
    and "filter (sharp_call_on f) (emitted S P f a) = []"
  shows "filter (sharp_call_on f) (trace_after S P sched entries) = []"
  using no_sharp_calls_seq [OF assms(1,3,4)]
  by (simp only: filter_empty_by_set [OF trace_after_seq [OF assms(1,2)]])


lemma ledger_after_seq_keys:
  assumes "distinct (map fst entries)" "schedule S P entries sched"
  shows "distinct (map fst (ledger_after S P sched entries)) \<and>
         set (map fst (ledger_after S P sched entries)) = set (map fst (ledger_seq S P entries)) \<and>
         length (ledger_after S P sched entries) = length (ledger_seq S P entries)"
proof -
  have "set (map fst (ledger_after S P sched entries)) = dom (map_of (ledger_after S P sched entries))"
    by (simp add: dom_map_of_conv_image_fst)
  also have "\<dots> = dom (map_of (ledger_seq S P entries))"
    by (simp only: ledger_after_seq [OF assms])
  also have "\<dots> = set (map fst (ledger_seq S P entries))"
    by (simp add: dom_map_of_conv_image_fst)
  finally show ?thesis using ledger_after_distinct [OF assms] by simp
qed

text \<open>The tasks in the order of their start are a schedule; so is every reordering.\<close>

lemma schedule_start_order:
  "distinct (map fst entries) \<Longrightarrow> schedule S P entries (pending_tasks S P entries)"
  by (simp add: schedule_def start_order_is_schedule)

lemma schedule_rev:
  "distinct (map fst entries) \<Longrightarrow> schedule S P entries (rev (pending_tasks S P entries))"
  by (simp add: schedule_def start_order_is_schedule)

lemma others_as_without:
  assumes "distinct (map fst entries)" "schedule S P entries sched"
    and "(g, x) \<in> set entries" "g \<noteq> f"
    and "schedule S P (filter (\<lambda>(h, y). h \<noteq> f) entries) sched'"
  shows "map_of (bundle_after S P sched entries) g =
           map_of (bundle_after S P sched' (filter (\<lambda>(h, y). h \<noteq> f) entries)) g \<and>
         map_of (ledger_after S P sched entries) g =
           map_of (ledger_after S P sched' (filter (\<lambda>(h, y). h \<noteq> f) entries)) g"
proof -
  let ?rest = "filter (\<lambda>(h, y). h \<noteq> f) entries"
  have d: "distinct (map fst ?rest)" using assms(1) by (rule distinct_map_filter)
  have m: "(g, x) \<in> set ?rest" using assms(3,4) by simp
  show ?thesis
    by (simp only: map_of_bundle_after [OF assms(1-3)] map_of_bundle_after [OF d assms(5) m]
        map_of_ledger_after [OF assms(1-3)] map_of_ledger_after [OF d assms(5) m])
qed

text \<open>The ledger never records a growth, in whatever order the tasks settle.\<close>

lemma begun_written_le:
  assumes "begun_written S P f a = Some sz"
  shows "compressedSize sz \<le> originalSize sz"
proof -
  have "begun_pending S P f a = None"
  proof (cases "begun_pending S P f a")
    case (Some p)
    from begun_pending_Some [OF Some] assms show ?thesis by simp
  qed simp
  with turn_from_parts [of S P f a] assms have "written S P f a = Some sz" by simp
  from written_le [OF this] show ?thesis by simp
qed

lemma resumed_written_le:
  assumes "p \<in> set (pending_tasks S P entries)" and "resumed_written S P p = Some sz"
  shows "compressedSize sz \<le> originalSize sz"
proof -
  from pending_file_in_entries [OF assms(1)]
  obtain a where "begun_pending S P (file_of p) a = Some p" by blast
  with turn_from_parts [of S P "file_of p" a] assms(2)
  have "written S P (file_of p) a = Some sz" by simp
  from written_le [OF this] show ?thesis by simp
qed

lemma scheduled_ledger_le:
  assumes "schedule S P entries sched"
    and "\<forall>(f, sz) \<in> set (processedFiles st). compressedSize sz \<le> originalSize sz"
  shows "\<forall>(f, sz) \<in> set (processedFiles (snd (generateBundle_scheduled S P sched entries st))).
           compressedSize sz \<le> originalSize sz"
proof -
  let ?st1 = "fold (\<lambda>(f, a). apply_at f (begun_written S P f a) (begun_emitted S P f a)) entries st"
  have one: "\<forall>(f, sz) \<in> set (processedFiles ?st1). compressedSize sz \<le> originalSize sz"
    by (rule fold_apply_at_invariant [OF assms(2)]) (use begun_written_le in blast)
  have two: "\<forall>(f, p) \<in> set (map (\<lambda>p. (file_of p, p)) sched).
      \<forall>sz. resumed_written S P p = Some sz \<longrightarrow> compressedSize sz \<le> originalSize sz"
    using assms(1) resumed_written_le [of _ S P entries] by (auto simp: schedule_def)
  show ?thesis
    unfolding generateBundle_scheduled_decompose snd_conv
    by (rule fold_apply_at_invariant [OF one two])
qed

text \<open>A ledger with one key stays so under every schedule.\<close>

lemma ledger_after_single_key:
  assumes "distinct (map fst entries)" "schedule S P entries sched"
    and "map fst (ledger_seq S P entries) = [k]"
  shows "map fst (ledger_after S P sched entries) = [k]"
proof -
  have "length (ledger_seq S P entries) = 1"
    using arg_cong [OF assms(3), of length] by simp
  with ledger_after_seq_keys [OF assms(1,2)] assms(3)
  have s: "set (map fst (ledger_after S P sched entries)) = {k}"
    and l: "length (map fst (ledger_after S P sched entries)) = 1"
    by simp_all
  from l obtain k' where "map fst (ledger_after S P sched entries) = [k']"
    by (cases "map fst (ledger_after S P sched entries)") simp_all
  with s show ?thesis by simp
qed

text \<open>The suffix test, spelled out.\<close>

lemma endsWith_iff: "endsWith s e \<longleftrightarrow> (\<exists>stem. s = stem @ e)"
proof
  assume "endsWith s e"
  then have "s = take (length s - length e) s @ e"
    by (metis append_take_drop_id endsWith_def)
  then show "\<exists>stem. s = stem @ e" ..
next
  assume "\<exists>stem. s = stem @ e"
  then show "endsWith s e" by (auto simp: endsWith_def)
qed

section \<open>The claims\<close>

text \<open>
  C1. When sharp returns candidate bytes for a candidate raster asset, the asset's source
  becomes the candidate exactly when the candidate is strictly shorter than the original;
  otherwise the asset keeps its source and the ledger records the original size twice.
  Across the whole bundle the hook changes nothing but such a source: keys, order and
  types stay, and a source is either untouched or a strictly shorter output of sharp for
  that source. This holds in whatever order the pending tasks settle.
\<close>

theorem gate_accepts_only_smaller:
  assumes "distinct (map fst entries)" and "schedule S P entries sched"
    and "(f, a) \<in> set entries"
    and "candidate P f a" and "source a = Bytes b" and "construct S b = None"
    and "format_of_ext (ext_of f) = Some fmt"
    and "formatSpecificOptions (options P) fmt = Some kvs" and "kvs \<noteq> []"
    and "toBuffer S fmt kvs b = Inr c"
  shows "map_of (bundle_after S P sched entries) f =
           Some (if length c < length b then a\<lparr>source := Bytes c\<rparr> else a) \<and>
         map_of (ledger_after S P sched entries) f =
           Some \<lparr>originalSize = length b,
                 compressedSize = (if length c < length b then length c else length b)\<rparr> \<and>
         list_all2
           (\<lambda>(g, x) (g', x'). g' = g \<and> type x' = type x \<and>
              (source x' = source x \<or>
               (\<exists>sb fmt' kvs' c'. source x = Bytes sb \<and> toBuffer S fmt' kvs' sb = Inr c' \<and>
                  length c' < length sb \<and> source x' = Bytes c')))
           entries (bundle_after S P sched entries)"
proof -
  note turn = turn_encoded [OF assms(4) read_source_Bytes [OF assms(5)]
      format_not_svg [OF assms(7)] assms(6-10)]
  have "map_of (bundle_after S P sched entries) f =
           Some (if length c < length b then a\<lparr>source := Bytes c\<rparr> else a)"
    using turn by (simp only: map_of_bundle_after [OF assms(1-3)])
  moreover have "map_of (ledger_after S P sched entries) f =
           Some \<lparr>originalSize = length b,
                 compressedSize = (if length c < length b then length c else length b)\<rparr>"
    using turn by (simp only: map_of_ledger_after [OF assms(1-3)])
  moreover have "list_all2
           (\<lambda>(g, x) (g', x'). g' = g \<and> type x' = type x \<and>
              (source x' = source x \<or>
               (\<exists>sb fmt' kvs' c'. source x = Bytes sb \<and> toBuffer S fmt' kvs' sb = Inr c' \<and>
                  length c' < length sb \<and> source x' = Bytes c')))
           entries (bundle_after S P sched entries)"
    unfolding bundle_after_seq [OF assms(1,2)] bundle_seq_eq list_all2_map2
    by (rule list_all2_refl) (use result_mutation in \<open>simp add: split_beta\<close>)
  ultimately show ?thesis by blast
qed

theorem gate_accepts_only_smaller_witness:
  "distinct (map fst [(''image.jpg'', \<lparr>type = asset, source = Bytes [1, 2, 3, 4]\<rparr>)]) \<and>
   schedule (mock_sharp (Inr [9, 9])) (viteImageCompress createFilter no_options)
     [(''image.jpg'', \<lparr>type = asset, source = Bytes [1, 2, 3, 4]\<rparr>)]
     (pending_tasks (mock_sharp (Inr [9, 9])) (viteImageCompress createFilter no_options)
        [(''image.jpg'', \<lparr>type = asset, source = Bytes [1, 2, 3, 4]\<rparr>)]) \<and>
   (''image.jpg'', \<lparr>type = asset, source = Bytes [1, 2, 3, 4]\<rparr>)
     \<in> set [(''image.jpg'', \<lparr>type = asset, source = Bytes [1, 2, 3, 4]\<rparr>)] \<and>
   candidate (viteImageCompress createFilter no_options) ''image.jpg''
     \<lparr>type = asset, source = Bytes [1, 2, 3, 4]\<rparr> \<and>
   construct (mock_sharp (Inr [9, 9])) [1, 2, 3, 4] = None \<and>
   format_of_ext (ext_of ''image.jpg'') = Some Jpeg \<and>
   formatSpecificOptions (options (viteImageCompress createFilter no_options)) Jpeg =
     Some [(''quality'', Num 75)] \<and>
   toBuffer (mock_sharp (Inr [9, 9])) Jpeg [(''quality'', Num 75)] [1, 2, 3, 4] = Inr [9, 9] \<and>
   map_of (bundle_after (mock_sharp (Inr [9, 9])) (viteImageCompress createFilter no_options)
       (pending_tasks (mock_sharp (Inr [9, 9])) (viteImageCompress createFilter no_options)
          [(''image.jpg'', \<lparr>type = asset, source = Bytes [1, 2, 3, 4]\<rparr>)])
       [(''image.jpg'', \<lparr>type = asset, source = Bytes [1, 2, 3, 4]\<rparr>)]) ''image.jpg'' =
     Some \<lparr>type = asset, source = Bytes [9, 9]\<rparr> \<and>
   map_of (ledger_after (mock_sharp (Inr [9, 9])) (viteImageCompress createFilter no_options)
       (pending_tasks (mock_sharp (Inr [9, 9])) (viteImageCompress createFilter no_options)
          [(''image.jpg'', \<lparr>type = asset, source = Bytes [1, 2, 3, 4]\<rparr>)])
       [(''image.jpg'', \<lparr>type = asset, source = Bytes [1, 2, 3, 4]\<rparr>)]) ''image.jpg'' =
     Some \<lparr>originalSize = 4, compressedSize = 2\<rparr>"
proof -
  let ?a = "\<lparr>type = asset, source = Bytes [1, 2, 3, 4]\<rparr>"
  let ?P = "viteImageCompress createFilter no_options"
  let ?S = "mock_sharp (Inr [9, 9])"
  have h1: "distinct (map fst [(''image.jpg'', ?a)])" by simp
  have hs: "schedule ?S ?P [(''image.jpg'', ?a)] (pending_tasks ?S ?P [(''image.jpg'', ?a)])"
    using h1 by (rule schedule_start_order)
  have h2: "(''image.jpg'', ?a) \<in> set [(''image.jpg'', ?a)]" by simp
  have h3: "candidate ?P ''image.jpg'' ?a" by (simp add: eval_plugin eval_path)
  have h4: "source ?a = Bytes [1, 2, 3, 4]" by simp
  have h5: "construct ?S [1, 2, 3, 4] = None" by (simp add: mock_sharp_def)
  have h6: "format_of_ext (ext_of ''image.jpg'') = Some Jpeg" by (simp add: eval_path)
  have h7: "formatSpecificOptions (options ?P) Jpeg = Some [(''quality'', Num 75)]"
    by (simp add: eval_plugin)
  have h8: "[(''quality'', Num 75)] \<noteq> []" by simp
  have h9: "toBuffer ?S Jpeg [(''quality'', Num 75)] [1, 2, 3, 4] = Inr [9, 9]"
    by (simp add: mock_sharp_def)
  from gate_accepts_only_smaller [OF h1 hs h2 h3 h4 h5 h6 h7 h8 h9] h1 hs h2 h3 h5 h6 h7 h9
  show ?thesis by simp
qed

text \<open>
  C2, as the spec states it: the ledger has one entry for every asset that passed the
  filter, so its size is the number of candidates. An asset that passes the filter and
  whose source is neither a string nor a \<^verbatim>\<open>Uint8Array\<close> is skipped at lines 120-122
  with a warning and without an entry: the ledger stays empty for one candidate.
\<close>

theorem ledger_size_counterexample:
  "length (ledger_after (mock_sharp (Inr [])) (viteImageCompress createFilter no_options) []
        [(''e.png'', \<lparr>type = asset, source = Neither\<rparr>)]) = 0 \<and>
   schedule (mock_sharp (Inr [])) (viteImageCompress createFilter no_options)
        [(''e.png'', \<lparr>type = asset, source = Neither\<rparr>)] [] \<and>
   length (filter (\<lambda>(f, a). candidate (viteImageCompress createFilter no_options) f a)
        [(''e.png'', \<lparr>type = asset, source = Neither\<rparr>)]) = 1"
proof -
  let ?a = "\<lparr>type = asset, source = Neither\<rparr>"
  let ?P = "viteImageCompress createFilter no_options"
  let ?S = "mock_sharp (Inr [])"
  have c: "candidate ?P ''e.png'' ?a" by (simp add: eval_plugin eval_path)
  have "begun_pending ?S ?P ''e.png'' ?a = None"
    by (simp add: begun_pending_def visit_begin_def read_source_def)
  then have s: "schedule ?S ?P [(''e.png'', ?a)] []"
    by (simp add: schedule_def pending_tasks_eq)
  have "length (ledger_after ?S ?P [] [(''e.png'', ?a)]) =
      length (map fst (ledger_seq ?S ?P [(''e.png'', ?a)]))"
    using ledger_after_seq_keys [of "[(''e.png'', ?a)]" ?S ?P "[]"] s by simp
  also have "\<dots> = 0"
    by (subst ledger_seq_keys) simp_all
  finally have "length (ledger_after ?S ?P [] [(''e.png'', ?a)]) = 0" .
  with c s show ?thesis by simp
qed

text \<open>
  C2, amended. For a bundle (its keys distinct, as those of an object are) the first
  batch of a new plugin leaves, under every schedule, a ledger whose keys are distinct and
  are exactly the file names of the entries of type asset that pass the filter and whose
  source is a string or a \<^verbatim>\<open>Uint8Array\<close>; its size is the number of those entries,
  whatever the tasks did (skipped, failed or compressed). Chunks, assets the filter
  rejects and assets with any other source have no entry.
\<close>

theorem ledger_one_entry_per_readable_candidate:
  assumes "distinct (map fst entries)" and "schedule S P entries sched"
  shows "distinct (map fst (ledger_after S P sched entries)) \<and>
         set (map fst (ledger_after S P sched entries)) =
           {f. \<exists>a. (f, a) \<in> set entries \<and> candidate P f a \<and> source a \<noteq> Neither} \<and>
         length (ledger_after S P sched entries) =
           length (filter (\<lambda>(f, a). candidate P f a \<and> source a \<noteq> Neither) entries)"
proof -
  let ?kept = "filter (\<lambda>(f, a). candidate P f a \<and> source a \<noteq> Neither) entries"
  have keys: "map fst (ledger_seq S P entries) = map fst ?kept"
    by (rule ledger_seq_keys [OF assms(1)])
  note sched = ledger_after_seq_keys [OF assms]
  have "set (map fst ?kept) =
      {f. \<exists>a. (f, a) \<in> set entries \<and> candidate P f a \<and> source a \<noteq> Neither}"
    by (auto simp: image_iff)
  with sched have s: "set (map fst (ledger_after S P sched entries)) =
      {f. \<exists>a. (f, a) \<in> set entries \<and> candidate P f a \<and> source a \<noteq> Neither}"
    by (simp only: keys)
  have "length (map fst (ledger_seq S P entries)) = length (map fst ?kept)"
    by (simp only: keys)
  then have "length (ledger_seq S P entries) = length ?kept"
    by (simp only: length_map)
  with sched have l: "length (ledger_after S P sched entries) = length ?kept"
    by simp
  from sched s l show ?thesis by blast
qed

theorem ledger_one_entry_per_readable_candidate_witness:
  "distinct (map fst
     [(''file.js'', \<lparr>type = chunk, source = Neither\<rparr>),
      (''image.jpg'', \<lparr>type = asset, source = Bytes [1, 2, 3, 4]\<rparr>),
      (''e.png'', \<lparr>type = asset, source = Neither\<rparr>),
      (''image.png'', \<lparr>type = asset, source = Bytes [5, 6]\<rparr>),
      (''style.css'', \<lparr>type = asset, source = Text [0x61]\<rparr>)]) \<and>
   schedule (mock_sharp (Inl ''Processing failed'')) (viteImageCompress createFilter no_options)
     [(''file.js'', \<lparr>type = chunk, source = Neither\<rparr>),
      (''image.jpg'', \<lparr>type = asset, source = Bytes [1, 2, 3, 4]\<rparr>),
      (''e.png'', \<lparr>type = asset, source = Neither\<rparr>),
      (''image.png'', \<lparr>type = asset, source = Bytes [5, 6]\<rparr>),
      (''style.css'', \<lparr>type = asset, source = Text [0x61]\<rparr>)]
     (rev (pending_tasks (mock_sharp (Inl ''Processing failed''))
        (viteImageCompress createFilter no_options)
        [(''file.js'', \<lparr>type = chunk, source = Neither\<rparr>),
         (''image.jpg'', \<lparr>type = asset, source = Bytes [1, 2, 3, 4]\<rparr>),
         (''e.png'', \<lparr>type = asset, source = Neither\<rparr>),
         (''image.png'', \<lparr>type = asset, source = Bytes [5, 6]\<rparr>),
         (''style.css'', \<lparr>type = asset, source = Text [0x61]\<rparr>)])) \<and>
   length (ledger_after (mock_sharp (Inl ''Processing failed''))
       (viteImageCompress createFilter no_options)
       (rev (pending_tasks (mock_sharp (Inl ''Processing failed''))
        (viteImageCompress createFilter no_options)
        [(''file.js'', \<lparr>type = chunk, source = Neither\<rparr>),
         (''image.jpg'', \<lparr>type = asset, source = Bytes [1, 2, 3, 4]\<rparr>),
         (''e.png'', \<lparr>type = asset, source = Neither\<rparr>),
         (''image.png'', \<lparr>type = asset, source = Bytes [5, 6]\<rparr>),
         (''style.css'', \<lparr>type = asset, source = Text [0x61]\<rparr>)]))
       [(''file.js'', \<lparr>type = chunk, source = Neither\<rparr>),
        (''image.jpg'', \<lparr>type = asset, source = Bytes [1, 2, 3, 4]\<rparr>),
        (''e.png'', \<lparr>type = asset, source = Neither\<rparr>),
        (''image.png'', \<lparr>type = asset, source = Bytes [5, 6]\<rparr>),
        (''style.css'', \<lparr>type = asset, source = Text [0x61]\<rparr>)]) = 2"
proof -
  let ?P = "viteImageCompress createFilter no_options"
  let ?S = "mock_sharp (Inl ''Processing failed'')"
  let ?es = "[(''file.js'', \<lparr>type = chunk, source = Neither\<rparr>),
      (''image.jpg'', \<lparr>type = asset, source = Bytes [1, 2, 3, 4]\<rparr>),
      (''e.png'', \<lparr>type = asset, source = Neither\<rparr>),
      (''image.png'', \<lparr>type = asset, source = Bytes [5, 6]\<rparr>),
      (''style.css'', \<lparr>type = asset, source = Text [0x61]\<rparr>)]"
  have h1: "distinct (map fst ?es)" by simp
  have hs: "schedule ?S ?P ?es (rev (pending_tasks ?S ?P ?es))"
    using h1 by (rule schedule_rev)
  have n: "length (filter (\<lambda>(f, a). candidate ?P f a \<and> source a \<noteq> Neither) ?es) = 2"
    by (simp add: eval_plugin eval_path)
  from ledger_one_entry_per_readable_candidate [OF h1 hs] h1 hs n
  show ?thesis by simp
qed

text \<open>
  C3. When sharp throws for a candidate asset (in its constructor or while encoding), the
  task's \<^verbatim>\<open>catch\<close> logs the error and records the original size twice; the asset
  keeps its source. The batch still ends with every entry of the bundle in place, and
  every other file ends as it does in the batch without the failing asset, in the bundle
  and in the ledger, whatever the order in which the pending tasks of either batch settle.
\<close>

theorem codec_failure_contained:
  assumes "distinct (map fst entries)" and "schedule S P entries sched"
    and "(f, a) \<in> set entries"
    and "candidate P f a" and "source a = Bytes b" and "ext_of f \<noteq> ''.svg''"
    and "construct S b = Some msg \<or>
         (construct S b = None \<and>
          (\<exists>fmt kvs. format_of_ext (ext_of f) = Some fmt \<and>
             formatSpecificOptions (options P) fmt = Some kvs \<and> kvs \<noteq> [] \<and>
             toBuffer S fmt kvs b = Inl msg))"
  shows "map_of (ledger_after S P sched entries) f =
           Some \<lparr>originalSize = length b, compressedSize = length b\<rparr> \<and>
         map_of (bundle_after S P sched entries) f = Some a \<and>
         ErrorFailed f msg \<in> set (trace_after S P sched entries) \<and>
         map fst (bundle_after S P sched entries) = map fst entries \<and>
         (\<forall>g x sched'. (g, x) \<in> set entries \<and> g \<noteq> f \<and>
              schedule S P (filter (\<lambda>(h, y). h \<noteq> f) entries) sched' \<longrightarrow>
            map_of (bundle_after S P sched entries) g =
              map_of (bundle_after S P sched' (filter (\<lambda>(h, y). h \<noteq> f) entries)) g \<and>
            map_of (ledger_after S P sched entries) g =
              map_of (ledger_after S P sched' (filter (\<lambda>(h, y). h \<noteq> f) entries)) g)"
proof -
  have turn: "result S P f a = a \<and>
      written S P f a = Some \<lparr>originalSize = length b, compressedSize = length b\<rparr> \<and>
      ErrorFailed f msg \<in> set (emitted S P f a)"
    using assms(7)
  proof
    assume "construct S b = Some msg"
    from turn_constructor_throws [OF assms(4) read_source_Bytes [OF assms(5)] assms(6) this]
    show ?thesis by simp
  next
    assume "construct S b = None \<and>
          (\<exists>fmt kvs. format_of_ext (ext_of f) = Some fmt \<and>
             formatSpecificOptions (options P) fmt = Some kvs \<and> kvs \<noteq> [] \<and>
             toBuffer S fmt kvs b = Inl msg)"
    then obtain fmt kvs where ok: "construct S b = None"
      and fm: "format_of_ext (ext_of f) = Some fmt"
      and fs: "formatSpecificOptions (options P) fmt = Some kvs" and ne: "kvs \<noteq> []"
      and fails: "toBuffer S fmt kvs b = Inl msg"
      by blast
    from turn_encode_fails [OF assms(4) read_source_Bytes [OF assms(5)] assms(6) ok fm fs ne fails]
    show ?thesis by simp
  qed
  have "map_of (ledger_after S P sched entries) f =
           Some \<lparr>originalSize = length b, compressedSize = length b\<rparr>"
    using turn by (simp only: map_of_ledger_after [OF assms(1-3)])
  moreover have "map_of (bundle_after S P sched entries) f = Some a"
    using turn by (simp only: map_of_bundle_after [OF assms(1-3)])
  moreover have "ErrorFailed f msg \<in> set (trace_after S P sched entries)"
    using turn by (intro emitted_in_trace_after [OF assms(1-3)]) simp
  moreover have "map fst (bundle_after S P sched entries) = map fst entries"
    by (simp only: bundle_after_seq [OF assms(1,2)] map_fst_bundle_seq)
  moreover have "\<forall>g x sched'. (g, x) \<in> set entries \<and> g \<noteq> f \<and>
              schedule S P (filter (\<lambda>(h, y). h \<noteq> f) entries) sched' \<longrightarrow>
            map_of (bundle_after S P sched entries) g =
              map_of (bundle_after S P sched' (filter (\<lambda>(h, y). h \<noteq> f) entries)) g \<and>
            map_of (ledger_after S P sched entries) g =
              map_of (ledger_after S P sched' (filter (\<lambda>(h, y). h \<noteq> f) entries)) g"
    using others_as_without [OF assms(1,2)] by blast
  ultimately show ?thesis by blast
qed

theorem codec_failure_contained_witness:
  "distinct (map fst [(''d.gif'', \<lparr>type = asset, source = Bytes [1, 2, 3]\<rparr>)]) \<and>
   schedule (mock_sharp (Inl ''CodecFailure''))
     (viteImageCompress createFilter
        (no_options\<lparr>sharpOptions := Value (no_sharp_options\<lparr>gif := Value [(''effort'', Num 7)]\<rparr>)\<rparr>))
     [(''d.gif'', \<lparr>type = asset, source = Bytes [1, 2, 3]\<rparr>)]
     [Pending ''d.gif'' \<lparr>type = asset, source = Bytes [1, 2, 3]\<rparr> [1, 2, 3] 3 Gif
        [(''effort'', Num 7)]] \<and>
   (''d.gif'', \<lparr>type = asset, source = Bytes [1, 2, 3]\<rparr>)
     \<in> set [(''d.gif'', \<lparr>type = asset, source = Bytes [1, 2, 3]\<rparr>)] \<and>
   candidate
     (viteImageCompress createFilter
        (no_options\<lparr>sharpOptions := Value (no_sharp_options\<lparr>gif := Value [(''effort'', Num 7)]\<rparr>)\<rparr>))
     ''d.gif'' \<lparr>type = asset, source = Bytes [1, 2, 3]\<rparr> \<and>
   ext_of ''d.gif'' \<noteq> ''.svg'' \<and>
   construct (mock_sharp (Inl ''CodecFailure'')) [1, 2, 3] = None \<and>
   format_of_ext (ext_of ''d.gif'') = Some Gif \<and>
   toBuffer (mock_sharp (Inl ''CodecFailure'')) Gif [(''effort'', Num 7)] [1, 2, 3] =
     Inl ''CodecFailure'' \<and>
   map_of (ledger_after (mock_sharp (Inl ''CodecFailure''))
       (viteImageCompress createFilter
          (no_options\<lparr>sharpOptions := Value (no_sharp_options\<lparr>gif := Value [(''effort'', Num 7)]\<rparr>)\<rparr>))
       [Pending ''d.gif'' \<lparr>type = asset, source = Bytes [1, 2, 3]\<rparr> [1, 2, 3] 3 Gif
          [(''effort'', Num 7)]]
       [(''d.gif'', \<lparr>type = asset, source = Bytes [1, 2, 3]\<rparr>)]) ''d.gif'' =
     Some \<lparr>originalSize = 3, compressedSize = 3\<rparr> \<and>
   ErrorFailed ''d.gif'' ''CodecFailure''
     \<in> set (trace_after (mock_sharp (Inl ''CodecFailure''))
       (viteImageCompress createFilter
          (no_options\<lparr>sharpOptions := Value (no_sharp_options\<lparr>gif := Value [(''effort'', Num 7)]\<rparr>)\<rparr>))
       [Pending ''d.gif'' \<lparr>type = asset, source = Bytes [1, 2, 3]\<rparr> [1, 2, 3] 3 Gif
          [(''effort'', Num 7)]]
       [(''d.gif'', \<lparr>type = asset, source = Bytes [1, 2, 3]\<rparr>)])"
proof -
  let ?a = "\<lparr>type = asset, source = Bytes [1, 2, 3]\<rparr>"
  let ?P = "viteImageCompress createFilter
        (no_options\<lparr>sharpOptions := Value (no_sharp_options\<lparr>gif := Value [(''effort'', Num 7)]\<rparr>)\<rparr>)"
  let ?S = "mock_sharp (Inl ''CodecFailure'')"
  let ?p = "Pending ''d.gif'' ?a [1, 2, 3] 3 Gif [(''effort'', Num 7)]"
  have h1: "distinct (map fst [(''d.gif'', ?a)])" by simp
  have h2: "(''d.gif'', ?a) \<in> set [(''d.gif'', ?a)]" by simp
  have h3: "candidate ?P ''d.gif'' ?a" by (simp add: eval_plugin eval_path)
  have h4: "source ?a = Bytes [1, 2, 3]" by simp
  have h5: "ext_of ''d.gif'' \<noteq> ''.svg''" by (simp add: eval_path)
  have c: "construct ?S [1, 2, 3] = None" by (simp add: mock_sharp_def)
  have fm: "format_of_ext (ext_of ''d.gif'') = Some Gif" by (simp add: eval_path)
  have fs: "formatSpecificOptions (options ?P) Gif = Some [(''effort'', Num 7)]"
    by (simp add: eval_plugin)
  have t: "toBuffer ?S Gif [(''effort'', Num 7)] [1, 2, 3] = Inl ''CodecFailure''"
    by (simp add: mock_sharp_def)
  have "begun_pending ?S ?P ''d.gif'' ?a = Some ?p"
    using h3 h5 c fm fs
    by (simp add: begun_pending_def visit_begin_def task_begin_def read_source_def
          candidate_def ext_of_def)
  then have hs: "schedule ?S ?P [(''d.gif'', ?a)] [?p]"
    by (simp add: schedule_def pending_tasks_eq)
  have h6: "construct ?S [1, 2, 3] = Some ''CodecFailure'' \<or>
         (construct ?S [1, 2, 3] = None \<and>
          (\<exists>fmt kvs. format_of_ext (ext_of ''d.gif'') = Some fmt \<and>
             formatSpecificOptions (options ?P) fmt = Some kvs \<and> kvs \<noteq> [] \<and>
             toBuffer ?S fmt kvs [1, 2, 3] = Inl ''CodecFailure''))"
    using c fm fs t by blast
  from codec_failure_contained [OF h1 hs h2 h3 h4 h5 h6] h1 hs h2 h3 h5 c fm t
  show ?thesis by simp
qed





text \<open>
  C6, as the spec states it: where the caller supplies no options record for a kind, the
  default record of that kind is kept. A caller whose \<^verbatim>\<open>sharpOptions\<close> has the key
  \<^verbatim>\<open>jpeg\<close> with the value \<^verbatim>\<open>undefined\<close> supplies no record, yet the spread at
  lines 84-87 copies the key: the merged options have no JPEG record, not the default
  \<^verbatim>\<open>{quality: 75}\<close>.
\<close>

theorem merge_keeps_default_counterexample:
  "formatSpecificOptions
     (options (viteImageCompress createFilter
        (no_options\<lparr>sharpOptions := Value (no_sharp_options\<lparr>jpeg := Undefined\<rparr>)\<rparr>))) Jpeg
     \<noteq> Some [(''quality'', Num 75)]"
  by (simp add: eval_plugin)

text \<open>
  C6, amended. The options are merged per kind and by key: a kind's key in the caller's
  \<^verbatim>\<open>sharpOptions\<close> replaces the default for that kind with its value, whole (a record,
  or \<^verbatim>\<open>undefined\<close>, which leaves the kind without options); a kind whose key is
  missing keeps its default record, and so does every kind when the caller gives no
  \<^verbatim>\<open>sharpOptions\<close>. The caller's object never replaces the whole mapping: with only
  a JPEG record supplied, PNG keeps \<^verbatim>\<open>{quality: 75, compressionLevel: 6}\<close>.
\<close>

theorem options_merged_per_kind:
  "formatSpecificOptions (options (viteImageCompress cF userOptions)) fmt =
     (case format_property fmt (or_empty (sharpOptions userOptions)) of
        Value r \<Rightarrow> Some r
      | Undefined \<Rightarrow> None
      | Absent \<Rightarrow> read (format_property fmt defaultSharpOptions)) \<and>
   formatSpecificOptions
     (options (viteImageCompress cF
        (no_options\<lparr>sharpOptions := Value (no_sharp_options\<lparr>jpeg := Value r\<rparr>)\<rparr>))) Png =
     Some [(''quality'', Num 75), (''compressionLevel'', Num 6)] \<and>
   formatSpecificOptions
     (options (viteImageCompress cF
        (no_options\<lparr>sharpOptions := Value (no_sharp_options\<lparr>jpeg := Value r\<rparr>)\<rparr>))) Jpeg =
     Some r"
proof -
  have "formatSpecificOptions (options (viteImageCompress cF userOptions)) fmt =
     (case format_property fmt (or_empty (sharpOptions userOptions)) of
        Value r \<Rightarrow> Some r
      | Undefined \<Rightarrow> None
      | Absent \<Rightarrow> read (format_property fmt defaultSharpOptions))"
    by (cases fmt; cases "format_property fmt (or_empty (sharpOptions userOptions))")
       (simp_all add: viteImageCompress_def mergeOptions_def formatSpecificOptions_def
          format_property_def spread_sharp_def defaultOptions_def or_empty_def)
  moreover have "formatSpecificOptions
     (options (viteImageCompress cF
        (no_options\<lparr>sharpOptions := Value (no_sharp_options\<lparr>jpeg := Value r\<rparr>)\<rparr>))) Png =
     Some [(''quality'', Num 75), (''compressionLevel'', Num 6)]"
    by (simp add: eval_plugin)
  moreover have "formatSpecificOptions
     (options (viteImageCompress cF
        (no_options\<lparr>sharpOptions := Value (no_sharp_options\<lparr>jpeg := Value r\<rparr>)\<rparr>))) Jpeg =
     Some r"
    by (simp add: eval_plugin)
  ultimately show ?thesis by blast
qed

text \<open>
  C7, as the spec states it: when include is unset the filter falls back to the default
  pattern. A caller whose options have the key \<^verbatim>\<open>include\<close> with the value
  \<^verbatim>\<open>undefined\<close> sets no pattern, yet the spread at lines 81-83 copies the key over
  the default: \<^verbatim>\<open>createFilter\<close> gets no include and passes every path that is not
  excluded. The asset \<^verbatim>\<open>data.bin\<close>, which the default pattern does not match, is a
  candidate and gets a ledger entry.
\<close>

theorem include_fallback_counterexample:
  "candidate (viteImageCompress createFilter (no_options\<lparr>include_pattern := Undefined\<rparr>))
     ''data.bin'' \<lparr>type = asset, source = Bytes [1]\<rparr> \<and>
   \<not> default_include ''data.bin'' \<and>
   schedule (mock_sharp (Inr []))
     (viteImageCompress createFilter (no_options\<lparr>include_pattern := Undefined\<rparr>))
     [(''data.bin'', \<lparr>type = asset, source = Bytes [1]\<rparr>)] [] \<and>
   map fst (ledger_after (mock_sharp (Inr []))
     (viteImageCompress createFilter (no_options\<lparr>include_pattern := Undefined\<rparr>)) []
     [(''data.bin'', \<lparr>type = asset, source = Bytes [1]\<rparr>)]) = [''data.bin'']"
proof -
  let ?a = "\<lparr>type = asset, source = Bytes [1]\<rparr>"
  let ?P = "viteImageCompress createFilter (no_options\<lparr>include_pattern := Undefined\<rparr>)"
  let ?S = "mock_sharp (Inr [])"
  have c: "candidate ?P ''data.bin'' ?a" by (simp add: eval_plugin)
  have n: "\<not> default_include ''data.bin''" by (simp add: eval_path)
  have d: "distinct (map fst [(''data.bin'', ?a)])" by simp
  have e: "ext_of ''data.bin'' = ''.bin''" by (simp add: eval_path)
  have m: "format_of_ext (ext_of ''data.bin'') = None" by (simp add: eval_path)
  have "begun_pending ?S ?P ''data.bin'' ?a = None"
    using c e m
    by (simp add: begun_pending_def visit_begin_def task_begin_def read_source_def
          candidate_def ext_of_def mock_sharp_def Let_def)
  then have s: "schedule ?S ?P [(''data.bin'', ?a)] []"
    by (simp add: schedule_def pending_tasks_eq)
  have "map fst (ledger_seq ?S ?P [(''data.bin'', ?a)]) = [''data.bin'']"
    using c by (subst ledger_seq_keys) simp_all
  with d s have "map fst (ledger_after ?S ?P [] [(''data.bin'', ?a)]) = [''data.bin'']"
    by (rule ledger_after_single_key)
  with c n s show ?thesis by simp
qed

text \<open>
  C7, amended. With a \<^verbatim>\<open>createFilter\<close> that keeps its contract (with an include, a
  path passes iff it matches include and does not match exclude; without one, iff it does
  not match exclude; no exclude excludes nothing), an entry is a candidate iff it is an
  asset whose file name is not matched by the caller's exclude pattern and is matched by
  the effective include pattern. That pattern is the caller's when the key
  \<^verbatim>\<open>include\<close> holds one, and the default when the caller's options have no such key;
  when the key is there and holds \<^verbatim>\<open>undefined\<close> there is no include pattern and no
  fallback, and every asset that is not excluded is a candidate. The default
  \<^verbatim>\<open>/\.(png|jpe?g|gif|svg|webp|avif)$/i\<close> matches the names that end, letter case
  aside, in one of \<^verbatim>\<open>.png .jpg .jpeg .gif .svg .webp .avif\<close>: it matches
  \<^verbatim>\<open>photo.JPEG\<close> and not \<^verbatim>\<open>data.bin\<close>, \<^verbatim>\<open>a.png.bak\<close> or \<^verbatim>\<open>apng\<close>. With include
  \<^verbatim>\<open>/\.webp$/\<close>, a batch of \<^verbatim>\<open>f.webp\<close> and \<^verbatim>\<open>g.jpg\<close> leaves a ledger with
  \<^verbatim>\<open>f.webp\<close> only, whatever the order in which its pending tasks settle.
\<close>

theorem filter_include_and_not_exclude:
  assumes "\<forall>inc exc p. cF (Some inc) exc p =
             (inc p \<and> \<not> (case exc of None \<Rightarrow> False | Some e \<Rightarrow> e p))"
    and "\<forall>exc p. cF None exc p = (\<not> (case exc of None \<Rightarrow> False | Some e \<Rightarrow> e p))"
  shows "candidate (viteImageCompress cF userOptions) f a =
           (type a = asset \<and>
            (case include_pattern userOptions of
               Absent \<Rightarrow> default_include f
             | Value i \<Rightarrow> i f
             | Undefined \<Rightarrow> True) \<and>
            \<not> (case read (exclude_pattern userOptions) of None \<Rightarrow> False | Some e \<Rightarrow> e f)) \<and>
         default_include f =
           (\<exists>e \<in> set [''.png'', ''.jpg'', ''.jpeg'', ''.gif'', ''.svg'', ''.webp'', ''.avif''].
              \<exists>stem. toLowerCase f = stem @ e) \<and>
         default_include ''photo.JPEG'' \<and> \<not> default_include ''data.bin'' \<and>
         \<not> default_include ''a.png.bak'' \<and> \<not> default_include ''apng'' \<and>
         (\<forall>sched.
            schedule S (viteImageCompress cF (no_options\<lparr>include_pattern := Value webp_pattern\<rparr>))
              [(''f.webp'', \<lparr>type = asset, source = Bytes b1\<rparr>),
               (''g.jpg'', \<lparr>type = asset, source = Bytes b2\<rparr>)] sched \<longrightarrow>
            map fst (ledger_after S
              (viteImageCompress cF (no_options\<lparr>include_pattern := Value webp_pattern\<rparr>)) sched
              [(''f.webp'', \<lparr>type = asset, source = Bytes b1\<rparr>),
               (''g.jpg'', \<lparr>type = asset, source = Bytes b2\<rparr>)]) = [''f.webp''])"
proof -
  have exc: "read (exclude_pattern (mergeOptions u)) = read (exclude_pattern u)" for u
    by (cases "exclude_pattern u") (simp_all add: mergeOptions_def defaultOptions_def)
  have cand: "candidate (viteImageCompress cF u) g x =
           (type x = asset \<and>
            (case include_pattern u of
               Absent \<Rightarrow> default_include g
             | Value i \<Rightarrow> i g
             | Undefined \<Rightarrow> True) \<and>
            \<not> (case read (exclude_pattern u) of None \<Rightarrow> False | Some e \<Rightarrow> e g))" for u g x
  proof (cases "include_pattern u")
    case Absent
    then have "read (include_pattern (mergeOptions u)) = Some default_include"
      by (simp add: mergeOptions_def defaultOptions_def)
    with Absent assms(1) show ?thesis
      by (simp add: candidate_def viteImageCompress_def exc)
  next
    case Undefined
    then have "read (include_pattern (mergeOptions u)) = None"
      by (simp add: mergeOptions_def defaultOptions_def)
    with Undefined assms(2) show ?thesis
      by (simp add: candidate_def viteImageCompress_def exc)
  next
    case (Value i)
    then have "read (include_pattern (mergeOptions u)) = Some i"
      by (simp add: mergeOptions_def defaultOptions_def)
    with Value assms(1) show ?thesis
      by (simp add: candidate_def viteImageCompress_def exc)
  qed
  have pattern: "default_include f =
           (\<exists>e \<in> set [''.png'', ''.jpg'', ''.jpeg'', ''.gif'', ''.svg'', ''.webp'', ''.avif''].
              \<exists>stem. toLowerCase f = stem @ e)"
    by (simp add: default_include_def endsWith_iff)
  have names: "default_include ''photo.JPEG'' \<and> \<not> default_include ''data.bin'' \<and>
         \<not> default_include ''a.png.bak'' \<and> \<not> default_include ''apng''"
    by (simp add: eval_path char_of_def bit_iff_odd)
  let ?P = "viteImageCompress cF (no_options\<lparr>include_pattern := Value webp_pattern\<rparr>)"
  let ?es = "[(''f.webp'', \<lparr>type = asset, source = Bytes b1\<rparr>),
              (''g.jpg'', \<lparr>type = asset, source = Bytes b2\<rparr>)]"
  have w: "candidate ?P ''f.webp'' \<lparr>type = asset, source = Bytes b1\<rparr>"
    by (simp add: cand no_options_def eval_path)
  have j: "\<not> candidate ?P ''g.jpg'' \<lparr>type = asset, source = Bytes b2\<rparr>"
    by (simp add: cand no_options_def eval_path)
  have d: "distinct (map fst ?es)" by simp
  have seq: "map fst (ledger_seq S ?P ?es) = [''f.webp'']"
    using w j by (subst ledger_seq_keys) simp_all
  have "map fst (ledger_after S ?P sched ?es) = [''f.webp'']" if "schedule S ?P ?es sched" for sched
    using d that seq by (rule ledger_after_single_key)
  with cand [of userOptions f a] pattern names show ?thesis by blast
qed

theorem filter_include_and_not_exclude_witness:
  "(\<forall>inc exc p. createFilter (Some inc) exc p =
             (inc p \<and> \<not> (case exc of None \<Rightarrow> False | Some e \<Rightarrow> e p))) \<and>
   (\<forall>exc p. createFilter None exc p =
             (\<not> (case exc of None \<Rightarrow> False | Some e \<Rightarrow> e p))) \<and>
   candidate (viteImageCompress createFilter (no_options\<lparr>include_pattern := Value webp_pattern\<rparr>))
     ''f.webp'' \<lparr>type = asset, source = Bytes [1]\<rparr> \<and>
   \<not> candidate (viteImageCompress createFilter (no_options\<lparr>include_pattern := Value webp_pattern\<rparr>))
     ''g.jpg'' \<lparr>type = asset, source = Bytes [2]\<rparr> \<and>
   candidate (viteImageCompress createFilter no_options)
     ''photo.JPEG'' \<lparr>type = asset, source = Bytes [1]\<rparr> \<and>
   \<not> candidate (viteImageCompress createFilter no_options)
     ''data.bin'' \<lparr>type = asset, source = Bytes [1]\<rparr> \<and>
   \<not> candidate (viteImageCompress createFilter no_options)
     ''photo.JPEG'' \<lparr>type = chunk, source = Neither\<rparr> \<and>
   \<not> candidate (viteImageCompress createFilter (no_options\<lparr>exclude_pattern := Value webp_pattern\<rparr>))
     ''f.webp'' \<lparr>type = asset, source = Bytes [1]\<rparr> \<and>
   candidate (viteImageCompress createFilter (no_options\<lparr>include_pattern := Undefined\<rparr>))
     ''data.bin'' \<lparr>type = asset, source = Bytes [1]\<rparr> \<and>
   schedule (mock_sharp (Inr []))
     (viteImageCompress createFilter (no_options\<lparr>include_pattern := Value webp_pattern\<rparr>))
     [(''f.webp'', \<lparr>type = asset, source = Bytes [1]\<rparr>),
      (''g.jpg'', \<lparr>type = asset, source = Bytes [2]\<rparr>)]
     [Pending ''f.webp'' \<lparr>type = asset, source = Bytes [1]\<rparr> [1] 1 Webp [(''quality'', Num 75)]] \<and>
   map fst (ledger_after (mock_sharp (Inr []))
             (viteImageCompress createFilter (no_options\<lparr>include_pattern := Value webp_pattern\<rparr>))
             [Pending ''f.webp'' \<lparr>type = asset, source = Bytes [1]\<rparr> [1] 1 Webp
                [(''quality'', Num 75)]]
             [(''f.webp'', \<lparr>type = asset, source = Bytes [1]\<rparr>),
              (''g.jpg'', \<lparr>type = asset, source = Bytes [2]\<rparr>)]) = [''f.webp'']"
proof -
  let ?P = "viteImageCompress createFilter (no_options\<lparr>include_pattern := Value webp_pattern\<rparr>)"
  let ?S = "mock_sharp (Inr [])"
  let ?a = "\<lparr>type = asset, source = Bytes [1]\<rparr>"
  let ?j = "\<lparr>type = asset, source = Bytes [2]\<rparr>"
  let ?p = "Pending ''f.webp'' ?a [1] 1 Webp [(''quality'', Num 75)]"
  have h1: "\<forall>inc exc p. createFilter (Some inc) exc p =
             (inc p \<and> \<not> (case exc of None \<Rightarrow> False | Some e \<Rightarrow> e p))"
    by (simp add: createFilter_def)
  have h2: "\<forall>exc p. createFilter None exc p =
             (\<not> (case exc of None \<Rightarrow> False | Some e \<Rightarrow> e p))"
    by (simp add: createFilter_def)
  have w: "webp_pattern ''f.webp''" and j: "\<not> webp_pattern ''g.jpg''"
    by (simp_all add: eval_path)
  note inst = filter_include_and_not_exclude [OF h1 h2, of _ _ _ ?S "[1]" "[2]"]
  from conjunct1 [OF inst [of "no_options\<lparr>include_pattern := Value webp_pattern\<rparr>" "''f.webp''" ?a]] w
  have cw: "candidate ?P ''f.webp'' ?a" by (simp add: no_options_def)
  from conjunct1 [OF inst [of "no_options\<lparr>include_pattern := Value webp_pattern\<rparr>" "''g.jpg''" ?j]] j
  have cj: "\<not> candidate ?P ''g.jpg'' ?j" by (simp add: no_options_def)
  have names: "default_include ''photo.JPEG'' \<and> \<not> default_include ''data.bin''"
    using inst [of no_options "''photo.JPEG''" ?a] by blast
  from conjunct1 [OF inst [of no_options "''photo.JPEG''" ?a]] names
  have d1: "candidate (viteImageCompress createFilter no_options) ''photo.JPEG'' ?a"
    by (simp add: no_options_def)
  from conjunct1 [OF inst [of no_options "''data.bin''" ?a]] names
  have d2: "\<not> candidate (viteImageCompress createFilter no_options) ''data.bin'' ?a"
    by (simp add: no_options_def)
  from conjunct1 [OF inst [of no_options "''photo.JPEG''" "\<lparr>type = chunk, source = Neither\<rparr>"]]
  have d3: "\<not> candidate (viteImageCompress createFilter no_options) ''photo.JPEG''
      \<lparr>type = chunk, source = Neither\<rparr>"
    by simp
  from conjunct1 [OF inst [of "no_options\<lparr>exclude_pattern := Value webp_pattern\<rparr>" "''f.webp''" ?a]] w
  have x: "\<not> candidate
      (viteImageCompress createFilter (no_options\<lparr>exclude_pattern := Value webp_pattern\<rparr>))
      ''f.webp'' ?a"
    by (simp add: no_options_def)
  from conjunct1 [OF inst [of "no_options\<lparr>include_pattern := Undefined\<rparr>" "''data.bin''" ?a]]
  have u: "candidate (viteImageCompress createFilter (no_options\<lparr>include_pattern := Undefined\<rparr>))
      ''data.bin'' ?a"
    by (simp add: no_options_def)
  have ew: "ext_of ''f.webp'' = ''.webp''" by (simp add: eval_path)
  have mw: "format_of_ext (ext_of ''f.webp'') = Some Webp" by (simp add: eval_path)
  have fw: "formatSpecificOptions (options ?P) Webp = Some [(''quality'', Num 75)]"
    by (simp add: eval_plugin)
  have pw: "begun_pending ?S ?P ''f.webp'' ?a = Some ?p"
    using cw ew mw fw
    by (simp add: begun_pending_def visit_begin_def task_begin_def read_source_def
          candidate_def ext_of_def mock_sharp_def Let_def)
  have pj: "begun_pending ?S ?P ''g.jpg'' ?j = None"
    using cj by (simp add: begun_pending_def visit_begin_def candidate_def)
  have hs: "schedule ?S ?P [(''f.webp'', ?a), (''g.jpg'', ?j)] [?p]"
    using pw pj by (simp add: schedule_def pending_tasks_eq)
  from inst [of "no_options\<lparr>include_pattern := Value webp_pattern\<rparr>" "''f.webp''" ?a]
    h1 h2 cw cj d1 d2 d3 x u hs
  show ?thesis by simp
qed

text \<open>
  C8. A candidate whose content is a string and whose extension is not \<^verbatim>\<open>.svg\<close> is
  not handed to sharp at all; the warning about a string source is logged, the asset is
  left as it was, and the ledger holds its UTF-8 byte length as both sizes, whatever the
  order in which the pending tasks of the batch settle.
\<close>

theorem string_payload_skipped:
  assumes "distinct (map fst entries)" and "schedule S P entries sched"
    and "(f, a) \<in> set entries"
    and "candidate P f a" and "source a = Text s" and "ext_of f \<noteq> ''.svg''"
  shows "WarnStringSource f \<in> set (trace_after S P sched entries) \<and>
         filter (sharp_call_on f) (trace_after S P sched entries) = [] \<and>
         map_of (bundle_after S P sched entries) f = Some a \<and>
         map_of (ledger_after S P sched entries) f =
           Some \<lparr>originalSize = length (Buffer_from_utf8 s),
                 compressedSize = length (Buffer_from_utf8 s)\<rparr>"
proof -
  note turn = turn_string [OF assms(4) read_source_Text [OF assms(5)] assms(6), of S]
  have "WarnStringSource f \<in> set (trace_after S P sched entries)"
    using turn by (intro emitted_in_trace_after [OF assms(1-3)]) simp
  moreover have "filter (sharp_call_on f) (trace_after S P sched entries) = []"
    using turn by (intro no_sharp_calls_after [OF assms(1-3)]) simp
  moreover have "map_of (bundle_after S P sched entries) f = Some a"
    using turn by (simp add: map_of_bundle_after [OF assms(1-3)])
  moreover have "map_of (ledger_after S P sched entries) f =
           Some \<lparr>originalSize = length (Buffer_from_utf8 s),
                 compressedSize = length (Buffer_from_utf8 s)\<rparr>"
    using turn by (simp add: map_of_ledger_after [OF assms(1-3)])
  ultimately show ?thesis by blast
qed

theorem string_payload_skipped_witness:
  "distinct (map fst
     [(''image.jpg'', \<lparr>type = asset, source = Text [0x74, 0x65, 0x73, 0x74]\<rparr>),
      (''photo.png'', \<lparr>type = asset, source = Bytes [1, 2, 3]\<rparr>)]) \<and>
   schedule (mock_sharp (Inr [])) (viteImageCompress createFilter no_options)
     [(''image.jpg'', \<lparr>type = asset, source = Text [0x74, 0x65, 0x73, 0x74]\<rparr>),
      (''photo.png'', \<lparr>type = asset, source = Bytes [1, 2, 3]\<rparr>)]
     [Pending ''photo.png'' \<lparr>type = asset, source = Bytes [1, 2, 3]\<rparr> [1, 2, 3] 3 Png
        [(''quality'', Num 75), (''compressionLevel'', Num 6)]] \<and>
   (''image.jpg'', \<lparr>type = asset, source = Text [0x74, 0x65, 0x73, 0x74]\<rparr>)
     \<in> set [(''image.jpg'', \<lparr>type = asset, source = Text [0x74, 0x65, 0x73, 0x74]\<rparr>),
            (''photo.png'', \<lparr>type = asset, source = Bytes [1, 2, 3]\<rparr>)] \<and>
   candidate (viteImageCompress createFilter no_options) ''image.jpg''
     \<lparr>type = asset, source = Text [0x74, 0x65, 0x73, 0x74]\<rparr> \<and>
   ext_of ''image.jpg'' \<noteq> ''.svg'' \<and>
   WarnStringSource ''image.jpg''
     \<in> set (trace_after (mock_sharp (Inr [])) (viteImageCompress createFilter no_options)
          [Pending ''photo.png'' \<lparr>type = asset, source = Bytes [1, 2, 3]\<rparr> [1, 2, 3] 3 Png
             [(''quality'', Num 75), (''compressionLevel'', Num 6)]]
          [(''image.jpg'', \<lparr>type = asset, source = Text [0x74, 0x65, 0x73, 0x74]\<rparr>),
           (''photo.png'', \<lparr>type = asset, source = Bytes [1, 2, 3]\<rparr>)]) \<and>
   map_of (ledger_after (mock_sharp (Inr [])) (viteImageCompress createFilter no_options)
          [Pending ''photo.png'' \<lparr>type = asset, source = Bytes [1, 2, 3]\<rparr> [1, 2, 3] 3 Png
             [(''quality'', Num 75), (''compressionLevel'', Num 6)]]
          [(''image.jpg'', \<lparr>type = asset, source = Text [0x74, 0x65, 0x73, 0x74]\<rparr>),
           (''photo.png'', \<lparr>type = asset, source = Bytes [1, 2, 3]\<rparr>)])
      ''image.jpg'' = Some \<lparr>originalSize = 4, compressedSize = 4\<rparr>"
proof -
  let ?a = "\<lparr>type = asset, source = Text [0x74, 0x65, 0x73, 0x74]\<rparr>"
  let ?b = "\<lparr>type = asset, source = Bytes [1, 2, 3]\<rparr>"
  let ?P = "viteImageCompress createFilter no_options"
  let ?S = "mock_sharp (Inr [])"
  let ?es = "[(''image.jpg'', ?a), (''photo.png'', ?b)]"
  let ?p = "Pending ''photo.png'' ?b [1, 2, 3] 3 Png
        [(''quality'', Num 75), (''compressionLevel'', Num 6)]"
  have h1: "distinct (map fst ?es)" by simp
  have h2: "(''image.jpg'', ?a) \<in> set ?es" by simp
  have h3: "candidate ?P ''image.jpg'' ?a" by (simp add: eval_plugin eval_path)
  have h4: "source ?a = Text [0x74, 0x65, 0x73, 0x74]" by simp
  have h5: "ext_of ''image.jpg'' \<noteq> ''.svg''" by (simp add: eval_path)
  have n: "length (Buffer_from_utf8 [0x74, 0x65, 0x73, 0x74]) = 4" by (simp add: eval_utf8)
  have pa: "begun_pending ?S ?P ''image.jpg'' ?a = None"
    using h3 h5
    by (simp add: begun_pending_def visit_begin_def read_source_def candidate_def ext_of_def
          Let_def)
  have cb: "candidate ?P ''photo.png'' ?b" by (simp add: eval_plugin eval_path)
  have eb: "ext_of ''photo.png'' = ''.png''" by (simp add: eval_path)
  have mb: "format_of_ext (ext_of ''photo.png'') = Some Png" by (simp add: eval_path)
  have fb: "formatSpecificOptions (options ?P) Png =
      Some [(''quality'', Num 75), (''compressionLevel'', Num 6)]"
    by (simp add: eval_plugin)
  have pb: "begun_pending ?S ?P ''photo.png'' ?b = Some ?p"
    using cb eb mb fb
    by (simp add: begun_pending_def visit_begin_def task_begin_def read_source_def
          candidate_def ext_of_def mock_sharp_def Let_def)
  have hs: "schedule ?S ?P ?es [?p]"
    using pa pb by (simp add: schedule_def pending_tasks_eq)
  from string_payload_skipped [OF h1 hs h2 h3 h4 h5] h1 hs h2 h3 h5 n
  show ?thesis by simp
qed

text \<open>
  C9. Every ledger entry has a final size that is at most its original size: the hook
  keeps this true of the ledger across batches. For an asset the batch records, the final
  size is strictly smaller exactly when the asset's source was replaced. So no row of the
  report gets the status of the last branch (a negative size change). This holds whatever
  the order in which the pending tasks of the batch settle.
\<close>

theorem final_size_never_larger:
  assumes "distinct (map fst entries)" and "schedule S P entries sched"
    and "\<forall>(f, sz) \<in> set (processedFiles st). compressedSize sz \<le> originalSize sz"
  shows "(\<forall>(f, sz) \<in> set (processedFiles (snd (generateBundle_scheduled S P sched entries st))).
            compressedSize sz \<le> originalSize sz) \<and>
         (\<forall>f a. (f, a) \<in> set entries \<and> candidate P f a \<and> source a \<noteq> Neither \<longrightarrow>
            (\<exists>a' sz. map_of (fst (generateBundle_scheduled S P sched entries st)) f = Some a' \<and>
               map_of (processedFiles (snd (generateBundle_scheduled S P sched entries st))) f =
                 Some sz \<and>
               (compressedSize sz < originalSize sz \<longleftrightarrow> source a' \<noteq> source a))) \<and>
         (\<forall>(f, s) \<in> set (closeBundle P (snd (generateBundle_scheduled S P sched entries st))).
            s \<noteq> ErrorOrNotCompressed)"
proof -
  let ?st' = "snd (generateBundle_scheduled S P sched entries st)"
  from assms(2) have sch: "distinct sched" "set sched = set (pending_tasks S P entries)"
    by (simp_all add: schedule_def)
  note same = schedule_irrelevant [OF assms(1) sch, of st]
  have inv: "\<forall>(f, sz) \<in> set (processedFiles ?st'). compressedSize sz \<le> originalSize sz"
    using assms(2,3) by (rule scheduled_ledger_le)
  have strict: "\<exists>a' sz. map_of (fst (generateBundle_scheduled S P sched entries st)) f = Some a' \<and>
               map_of (processedFiles ?st') f = Some sz \<and>
               (compressedSize sz < originalSize sz \<longleftrightarrow> source a' \<noteq> source a)"
    if "(f, a) \<in> set entries" "candidate P f a" "source a \<noteq> Neither" for f a
  proof -
    from that(2,3) obtain sz where sz: "written S P f a = Some sz"
      using written_iff [of S P f a] by auto
    have "map_of (fst (generateBundle_scheduled S P sched entries st)) f = Some (result S P f a)"
      using same by (simp only: fst_generateBundle map_of_bundle_seq [OF assms(1) that(1)])
    moreover have "map_of (processedFiles ?st') f = Some sz"
      using sz same by (simp only: map_of_ledger_from [OF assms(1) that])
    moreover have "compressedSize sz < originalSize sz \<longleftrightarrow> source (result S P f a) \<noteq> source a"
      using written_le [OF sz] by blast
    ultimately show ?thesis by blast
  qed
  have rows: "\<forall>(f, s) \<in> set (closeBundle P ?st'). s \<noteq> ErrorOrNotCompressed"
  proof -
    have "s \<noteq> ErrorOrNotCompressed" if "(f, s) \<in> set (closeBundle P ?st')" for f s
    proof
      assume e: "s = ErrorOrNotCompressed"
      from that obtain sz where "(f, sz) \<in> set (processedFiles ?st')" "s = row_status f sz"
        by (auto simp: closeBundle_def split: if_splits)
      with e inv row_status_error [of f sz] show False by fastforce
    qed
    then show ?thesis by blast
  qed
  from inv strict rows show ?thesis by blast
qed

theorem final_size_never_larger_witness:
  "distinct (map fst [(''image.jpg'', \<lparr>type = asset, source = Bytes [1, 2, 3, 4]\<rparr>)]) \<and>
   schedule (mock_sharp (Inr [9, 9])) (viteImageCompress createFilter no_options)
     [(''image.jpg'', \<lparr>type = asset, source = Bytes [1, 2, 3, 4]\<rparr>)]
     [Pending ''image.jpg'' \<lparr>type = asset, source = Bytes [1, 2, 3, 4]\<rparr> [1, 2, 3, 4] 4 Jpeg
        [(''quality'', Num 75)]] \<and>
   processedFiles initial = [] \<and>
   (''image.jpg'', \<lparr>type = asset, source = Bytes [1, 2, 3, 4]\<rparr>)
     \<in> set [(''image.jpg'', \<lparr>type = asset, source = Bytes [1, 2, 3, 4]\<rparr>)] \<and>
   candidate (viteImageCompress createFilter no_options) ''image.jpg''
     \<lparr>type = asset, source = Bytes [1, 2, 3, 4]\<rparr> \<and>
   (\<exists>a' sz.
      map_of (fst (generateBundle_scheduled (mock_sharp (Inr [9, 9]))
          (viteImageCompress createFilter no_options)
          [Pending ''image.jpg'' \<lparr>type = asset, source = Bytes [1, 2, 3, 4]\<rparr> [1, 2, 3, 4] 4 Jpeg
             [(''quality'', Num 75)]]
          [(''image.jpg'', \<lparr>type = asset, source = Bytes [1, 2, 3, 4]\<rparr>)] initial)) ''image.jpg'' =
        Some a' \<and>
      map_of (processedFiles (snd (generateBundle_scheduled (mock_sharp (Inr [9, 9]))
          (viteImageCompress createFilter no_options)
          [Pending ''image.jpg'' \<lparr>type = asset, source = Bytes [1, 2, 3, 4]\<rparr> [1, 2, 3, 4] 4 Jpeg
             [(''quality'', Num 75)]]
          [(''image.jpg'', \<lparr>type = asset, source = Bytes [1, 2, 3, 4]\<rparr>)] initial))) ''image.jpg'' =
        Some sz \<and>
      (compressedSize sz < originalSize sz) = (source a' \<noteq> Bytes [1, 2, 3, 4]))"
proof -
  let ?a = "\<lparr>type = asset, source = Bytes [1, 2, 3, 4]\<rparr>"
  let ?P = "viteImageCompress createFilter no_options"
  let ?S = "mock_sharp (Inr [9, 9])"
  let ?p = "Pending ''image.jpg'' ?a [1, 2, 3, 4] 4 Jpeg [(''quality'', Num 75)]"
  have h1: "distinct (map fst [(''image.jpg'', ?a)])" by simp
  have e: "processedFiles initial = []" by (simp add: initial_def)
  then have h2: "\<forall>(f, sz) \<in> set (processedFiles initial). compressedSize sz \<le> originalSize sz"
    by simp
  have m: "(''image.jpg'', ?a) \<in> set [(''image.jpg'', ?a)]" by simp
  have c: "candidate ?P ''image.jpg'' ?a" by (simp add: eval_plugin eval_path)
  have n: "source ?a \<noteq> Neither" by simp
  have ej: "ext_of ''image.jpg'' = ''.jpg''" by (simp add: eval_path)
  have mj: "format_of_ext (ext_of ''image.jpg'') = Some Jpeg" by (simp add: eval_path)
  have fj: "formatSpecificOptions (options ?P) Jpeg = Some [(''quality'', Num 75)]"
    by (simp add: eval_plugin)
  have pj: "begun_pending ?S ?P ''image.jpg'' ?a = Some ?p"
    using c ej fj mj
    by (simp add: begun_pending_def visit_begin_def task_begin_def read_source_def
          candidate_def ext_of_def mock_sharp_def Let_def)
  have hs: "schedule ?S ?P [(''image.jpg'', ?a)] [?p]"
    using pj by (simp add: schedule_def pending_tasks_eq)
  from final_size_never_larger [OF h1 hs h2]
  have "\<exists>a' sz.
      map_of (fst (generateBundle_scheduled ?S ?P [?p] [(''image.jpg'', ?a)] initial))
        ''image.jpg'' = Some a' \<and>
      map_of (processedFiles (snd (generateBundle_scheduled ?S ?P [?p]
        [(''image.jpg'', ?a)] initial))) ''image.jpg'' = Some sz \<and>
      (compressedSize sz < originalSize sz) = (source a' \<noteq> source ?a)"
    using m c n by blast
  with h1 hs e m c show ?thesis by simp
qed

text \<open>
  C10. For a candidate whose source is a string, both sizes in the ledger are the number
  of bytes of the string's UTF-8 encoding. That number is at least the number of UTF-16
  code units of the string and equals it only for a string of ASCII characters. For a
  candidate whose source is a byte array the original size is the length of the array,
  and the final size is that length or the length of a buffer sharp returned for it.
  This holds whatever the order in which the pending tasks of the batch settle.
\<close>

theorem string_size_is_utf8_byte_length:
  assumes "distinct (map fst entries)" and "schedule S P entries sched"
    and "(f, a) \<in> set entries"
    and "candidate P f a" and "source a = Text s"
  shows "map_of (ledger_after S P sched entries) f =
           Some \<lparr>originalSize = length (Buffer_from_utf8 s),
                 compressedSize = length (Buffer_from_utf8 s)\<rparr> \<and>
         length s \<le> length (Buffer_from_utf8 s) \<and>
         (length (Buffer_from_utf8 s) = length s \<longleftrightarrow> (\<forall>u \<in> set s. unat u < 0x80)) \<and>
         (\<forall>g x b. (g, x) \<in> set entries \<and> candidate P g x \<and> source x = Bytes b \<longrightarrow>
            (\<exists>sz. map_of (ledger_after S P sched entries) g = Some sz \<and> originalSize sz = length b \<and>
               (compressedSize sz = length b \<or>
                (\<exists>fmt kvs c. toBuffer S fmt kvs b = Inr c \<and> compressedSize sz = length c))))"
proof -
  have "map_of (ledger_after S P sched entries) f =
           Some \<lparr>originalSize = length (Buffer_from_utf8 s),
                 compressedSize = length (Buffer_from_utf8 s)\<rparr>"
    by (simp only: map_of_ledger_after [OF assms(1-3)] written_Text [OF assms(4,5)])
  moreover have "\<exists>sz. map_of (ledger_after S P sched entries) g = Some sz \<and> originalSize sz = length b \<and>
               (compressedSize sz = length b \<or>
                (\<exists>fmt kvs c. toBuffer S fmt kvs b = Inr c \<and> compressedSize sz = length c))"
    if "(g, x) \<in> set entries" "candidate P g x" "source x = Bytes b" for g x b
    using written_Bytes [OF that(2,3), of S]
    by (simp only: map_of_ledger_after [OF assms(1,2) that(1)])
  ultimately show ?thesis using length_Buffer_from_utf8 [of s] by blast
qed

theorem string_size_is_utf8_byte_length_witness:
  "distinct (map fst [(''logo.svg'', \<lparr>type = asset, source = Text [0x3C, 0xE9, 0x3E]\<rparr>)]) \<and>
   schedule (mock_sharp (Inr [])) (viteImageCompress createFilter no_options)
     [(''logo.svg'', \<lparr>type = asset, source = Text [0x3C, 0xE9, 0x3E]\<rparr>)] [] \<and>
   (''logo.svg'', \<lparr>type = asset, source = Text [0x3C, 0xE9, 0x3E]\<rparr>)
     \<in> set [(''logo.svg'', \<lparr>type = asset, source = Text [0x3C, 0xE9, 0x3E]\<rparr>)] \<and>
   candidate (viteImageCompress createFilter no_options) ''logo.svg''
     \<lparr>type = asset, source = Text [0x3C, 0xE9, 0x3E]\<rparr> \<and>
   length [0x3C, 0xE9, 0x3E :: 16 word] = 3 \<and>
   map_of (ledger_after (mock_sharp (Inr [])) (viteImageCompress createFilter no_options) []
       [(''logo.svg'', \<lparr>type = asset, source = Text [0x3C, 0xE9, 0x3E]\<rparr>)]) ''logo.svg'' =
     Some \<lparr>originalSize = 4, compressedSize = 4\<rparr>"
proof -
  let ?a = "\<lparr>type = asset, source = Text [0x3C, 0xE9, 0x3E]\<rparr>"
  let ?P = "viteImageCompress createFilter no_options"
  let ?S = "mock_sharp (Inr [])"
  have h1: "distinct (map fst [(''logo.svg'', ?a)])" by simp
  have h2: "(''logo.svg'', ?a) \<in> set [(''logo.svg'', ?a)]" by simp
  have h3: "candidate ?P ''logo.svg'' ?a" by (simp add: eval_plugin eval_path)
  have h4: "source ?a = Text [0x3C, 0xE9, 0x3E]" by simp
  have n: "length (Buffer_from_utf8 [0x3C, 0xE9, 0x3E]) = 4" by (simp add: eval_utf8)
  have e: "ext_of ''logo.svg'' = ''.svg''" by (simp add: eval_path)
  have pa: "begun_pending ?S ?P ''logo.svg'' ?a = None"
    using h3 e
    by (simp add: begun_pending_def visit_begin_def read_source_def candidate_def ext_of_def
          Let_def)
  have hs: "schedule ?S ?P [(''logo.svg'', ?a)] []"
    using pa by (simp add: schedule_def pending_tasks_eq)
  from string_size_is_utf8_byte_length [OF h1 hs h2 h3 h4] h1 hs h2 h3 n
  show ?thesis by simp
qed

end
